theory Spec2Isabelle
  imports Complex_Main
begin

section \<open>Rectangles and the overlap test (utils/drawing.py)\<close>

text \<open>
  The drawing code keeps rectangles as dictionaries with the four keys
  \<^verbatim>\<open>x_min\<close>, \<^verbatim>\<open>y_min\<close>, \<^verbatim>\<open>x_max\<close>, \<^verbatim>\<open>y_max\<close>. Label footprints carry pixel
  coordinates (Python ints), detections carry normalised coordinates (floats), so
  the record is polymorphic in the coordinate type.
\<close>

record 'a box =
  x_min :: 'a
  y_min :: 'a
  x_max :: 'a
  y_max :: 'a

type_synonym rect = "int box"

text \<open>
  \<^verbatim>\<open>
  def _overlap(rect1, rect2):
      return not (rect1['x_max'] < rect2['x_min'] or
                  rect2['x_max'] < rect1['x_min'] or
                  rect1['y_max'] < rect2['y_min'] or
                  rect2['y_max'] < rect1['y_min'])
  \<close>
\<close>

definition overlap :: "rect \<Rightarrow> rect \<Rightarrow> bool" where
  "overlap rect1 rect2 =
     (\<not> (x_max rect1 < x_min rect2 \<or>
         x_max rect2 < x_min rect1 \<or>
         y_max rect1 < y_min rect2 \<or>
         y_max rect2 < y_min rect1))"

text \<open>
  A quadruple denotes a rectangle when its minimum corner does not lie beyond its
  maximum corner on either axis.
\<close>

definition is_rect :: "rect \<Rightarrow> bool" where
  "is_rect r = (x_min r \<le> x_max r \<and> y_min r \<le> y_max r)"

text \<open>
  Two rectangles share the vertical edge \<open>x_max a = x_min b\<close> when that equation holds
  and their vertical extents meet.
\<close>

definition share_x_edge :: "rect \<Rightarrow> rect \<Rightarrow> bool" where
  "share_x_edge a b =
     (x_max a = x_min b \<and> y_min a \<le> y_max b \<and> y_min b \<le> y_max a)"

text \<open>A positive gap between \<open>a\<close> and \<open>b\<close> on the horizontal or on the vertical axis.\<close>

definition gap_between :: "rect \<Rightarrow> rect \<Rightarrow> bool" where
  "gap_between a b =
     (x_max a < x_min b \<or> x_max b < x_min a \<or> y_max a < y_min b \<or> y_max b < y_min a)"

section \<open>Text measurement and word wrapping (utils/drawing.py, lines 71 to 92)\<close>

text \<open>
  \<^verbatim>\<open>cv2.getTextSize(text, font, font_scale, thickness)\<close> belongs to the rendering
  backend, not to this repository. It enters the model as a parameter that maps a
  string to its \<open>(width, height)\<close> in pixels; font, scale and thickness are the fixed
  values of the settings module.
\<close>

type_synonym getTextSize = "string \<Rightarrow> int \<times> int"

text \<open>
  Strings are lists of characters with code points below 256. \<^verbatim>\<open>str.strip()\<close>
  removes leading and trailing whitespace, which for these code points is the set
  below (tab, line feed, vertical tab, form feed, carriage return, the four
  separators \<open>0x1C\<close> to \<open>0x1F\<close>, space, next line, no-break space).
\<close>

definition py_isspace :: "char \<Rightarrow> bool" where
  "py_isspace c = ((of_char c :: nat) \<in> {9, 10, 11, 12, 13, 28, 29, 30, 31, 32, 133, 160})"

definition strip :: "string \<Rightarrow> string" where
  "strip s = rev (dropWhile py_isspace (rev (dropWhile py_isspace s)))"

text \<open>
  \<^verbatim>\<open>text.split(" ")\<close>: splitting at every single space; consecutive spaces give empty
  words and the empty text gives one empty word.
\<close>

fun split_on :: "char \<Rightarrow> string \<Rightarrow> string list" where
  "split_on sep [] = [[]]"
| "split_on sep (c # cs) =
     (if c = sep then [] # split_on sep cs
      else (case split_on sep cs of
              [] \<Rightarrow> [[c]]
            | w # ws \<Rightarrow> (c # w) # ws))"

text \<open>
  \<^verbatim>\<open>
  wrap_width = max(300, x_max - x_min)
  words = text.split(" ")
  lines = []
  current_line = ""
  for word in words:
      test_line = f"{current_line} {word}".strip()
      (text_width, text_height), _ = cv2.getTextSize(test_line, ...)
      if text_width > wrap_width and current_line:
          lines.append(current_line)
          current_line = word
      else:
          current_line = test_line
  if current_line:
      lines.append(current_line)
  \<close>
\<close>

definition wrap_width :: "int \<Rightarrow> int \<Rightarrow> int" where
  "wrap_width x_min' x_max' = max 300 (x_max' - x_min')"

fun wrap_loop :: "getTextSize \<Rightarrow> int \<Rightarrow> string list \<Rightarrow> string list \<Rightarrow> string
                    \<Rightarrow> string list \<times> string" where
  "wrap_loop gts ww [] lines current_line = (lines, current_line)"
| "wrap_loop gts ww (word # words) lines current_line =
     (let test_line = strip (current_line @ '' '' @ word);
          text_width = fst (gts test_line)
      in if text_width > ww \<and> current_line \<noteq> []
         then wrap_loop gts ww words (lines @ [current_line]) word
         else wrap_loop gts ww words lines test_line)"

definition wrap_lines :: "getTextSize \<Rightarrow> int \<Rightarrow> string \<Rightarrow> string list" where
  "wrap_lines gts ww text =
     (case wrap_loop gts ww (split_on CHR '' '' text) [] [] of
        (lines, current_line) \<Rightarrow>
          if current_line \<noteq> [] then lines @ [current_line] else lines)"

text \<open>\<^verbatim>\<open>" ".join(lines)\<close>\<close>

fun join_sp :: "string list \<Rightarrow> string" where
  "join_sp [] = []"
| "join_sp [l] = l"
| "join_sp (l # ls) = l @ '' '' @ join_sp ls"

text \<open>
  The words of a text in the sense of \<^verbatim>\<open>text.split()\<close>: the maximal runs of
  characters that are not whitespace.
\<close>

fun ws_words_acc :: "string \<Rightarrow> string \<Rightarrow> string list" where
  "ws_words_acc acc [] = (if acc = [] then [] else [rev acc])"
| "ws_words_acc acc (c # cs) =
     (if py_isspace c
      then (if acc = [] then ws_words_acc [] cs else rev acc # ws_words_acc [] cs)
      else ws_words_acc (c # acc) cs)"

definition ws_words :: "string \<Rightarrow> string list" where
  "ws_words text = ws_words_acc [] text"

text \<open>The words of a text in the sense of the wrapping loop: the non-empty pieces between spaces.\<close>

definition sp_words :: "string \<Rightarrow> string list" where
  "sp_words text = filter (\<lambda>w. w \<noteq> []) (split_on CHR '' '' text)"

text \<open>A text whose only whitespace characters are spaces.\<close>

definition only_space_ws :: "string \<Rightarrow> bool" where
  "only_space_ws text = list_all (\<lambda>c. py_isspace c \<longrightarrow> c = CHR '' '') text"

text \<open>
  A text measurement under which a line never gets narrower when a word is put before
  or after it, as for every font in which glyph advances are not negative.
\<close>

definition monotone_width :: "getTextSize \<Rightarrow> bool" where
  "monotone_width gts =
     (\<forall>s t. fst (gts s) \<le> fst (gts (s @ '' '' @ t)) \<and> fst (gts t) \<le> fst (gts (s @ '' '' @ t)))"

text \<open>A fixed-pitch measurement: every character is \<open>w\<close> pixels wide, every line \<open>h\<close> pixels high.\<close>

definition fixed_pitch :: "int \<Rightarrow> int \<Rightarrow> getTextSize" where
  "fixed_pitch w h s = (w * int (length s), h)"

text \<open>
  Auxiliary notions for the wrapping loop: a word without any whitespace character, a
  line that neither starts nor ends with whitespace, the final \<^verbatim>\<open>if current_line:
  lines.append(current_line)\<close> applied to the state of the loop, and a line that is not
  empty and either is at most \<open>ww\<close> pixels wide or consists of a single word.
\<close>

definition word_ok :: "string \<Rightarrow> bool" where
  "word_ok w = (\<forall>c\<in>set w. \<not> py_isspace c)"

definition line_ok :: "string \<Rightarrow> bool" where
  "line_ok l = (l = [] \<or> (\<not> py_isspace (hd l) \<and> \<not> py_isspace (last l)))"

definition flush :: "string list \<times> string \<Rightarrow> string list" where
  "flush r = (case r of (lines, current_line) \<Rightarrow>
                if current_line \<noteq> [] then lines @ [current_line] else lines)"

definition line_fits :: "getTextSize \<Rightarrow> int \<Rightarrow> string \<Rightarrow> bool" where
  "line_fits gts ww l = (l \<noteq> [] \<and> (fst (gts l) \<le> ww \<or> word_ok l))"

text \<open>
  Greedy line breaks: for every two consecutive lines, the first line extended by the
  first word of the second is wider than \<open>ww\<close>. \<open>break_pending\<close> is the same condition
  between the last finished line and the line under construction.
\<close>

fun greedy_breaks :: "getTextSize \<Rightarrow> int \<Rightarrow> string list \<Rightarrow> bool" where
  "greedy_breaks gts ww [] = True"
| "greedy_breaks gts ww [l] = True"
| "greedy_breaks gts ww (l # l' # ls) =
     (fst (gts (l @ '' '' @ hd (sp_words l'))) > ww \<and> greedy_breaks gts ww (l' # ls))"

definition break_pending :: "getTextSize \<Rightarrow> int \<Rightarrow> string list \<Rightarrow> string \<Rightarrow> bool" where
  "break_pending gts ww lines cur =
     (lines \<noteq> [] \<longrightarrow>
        (if cur = [] then fst (gts (last lines)) > ww
         else fst (gts (last lines @ '' '' @ hd (sp_words cur))) > ww))"

section \<open>Label placement (utils/drawing.py, lines 60 to 205)\<close>

text \<open>\<^verbatim>\<open>settings.TEXT_LINE_SPACING = 5\<close>\<close>

definition TEXT_LINE_SPACING :: int where
  "TEXT_LINE_SPACING = 5"

text \<open>
  Lines 102 to 146 of \<^verbatim>\<open>_draw_wrapped_text\<close>: the position of the label and the
  footprint appended to \<^verbatim>\<open>used_areas\<close>. The two \<^verbatim>\<open>for area in used_areas\<close> loops with
  \<^verbatim>\<open>break\<close> are \<open>list_ex\<close>. \<^verbatim>\<open>used_areas\<close> defaults to \<^verbatim>\<open>None\<close>, hence the option; the
  local \<^verbatim>\<open>frame_height\<close> is read from the frame and is never \<^verbatim>\<open>None\<close>. The result is
  \<open>(label_x, label_y_start, tested, used_areas)\<close>, where \<open>tested\<close> lists, in order, the
  candidate footprints that were compared with the existing footprints. The horizontal
  rule (lines 102 to 105) and the vertical rule (line 108) are \<open>rule_label_x\<close> and
  \<open>rule_label_y_start\<close>.
  \<^verbatim>\<open>
  label_x = x_min
  if (label_x + line_width) > frame_width:
      label_x = frame_width - line_width
  label_y_start = y_min - 10 if (y_min - 10 - total_text_height) > 0
                  else y_min + 10 + line_height
  if used_areas is not None and frame_height is not None:
      text_area = {'x_min': label_x - 15, 'y_min': label_y_start - 5,
                   'x_max': label_x + line_width + 15,
                   'y_max': label_y_start + total_text_height + 5}
      overlap_found = False
      for area in used_areas:
          if _overlap(text_area, area):
              overlap_found = True
              break
      if overlap_found and label_y_start > y_min:
          label_y_start = y_min + 10 + line_height
          text_area['y_min'] = label_y_start - 5
          text_area['y_max'] = label_y_start + total_text_height + 5
          overlap_found = False
          for area in used_areas:
              if _overlap(text_area, area):
                  overlap_found = True
                  break
      if overlap_found:
          label_x = min(frame_width - line_width - 15, x_max + 10)
          text_area['x_min'] = label_x - 15
          text_area['x_max'] = label_x + line_width + 15
      used_areas.append(text_area)
  \<close>
\<close>

definition rule_label_x :: "int \<Rightarrow> int \<Rightarrow> int \<Rightarrow> int" where
  "rule_label_x x_min' line_width frame_width =
     (if x_min' + line_width > frame_width then frame_width - line_width else x_min')"

definition rule_label_y_start :: "int \<Rightarrow> int \<Rightarrow> int \<Rightarrow> int" where
  "rule_label_y_start y_min' line_height total_text_height =
     (if y_min' - 10 - total_text_height > 0 then y_min' - 10 else y_min' + 10 + line_height)"

definition place_label ::
  "int \<Rightarrow> int \<Rightarrow> int \<Rightarrow> int \<Rightarrow> int \<Rightarrow> int \<Rightarrow> int \<Rightarrow> rect list option
     \<Rightarrow> int \<times> int \<times> rect list \<times> rect list option" where
  "place_label line_width line_height total_text_height x_min' y_min' x_max' frame_width used_areas =
     (let label_x = rule_label_x x_min' line_width frame_width;
          label_y_start = rule_label_y_start y_min' line_height total_text_height
      in case used_areas of
           None \<Rightarrow> (label_x, label_y_start, [], None)
         | Some areas \<Rightarrow>
             (let text_area = \<lparr>x_min = label_x - 15, y_min = label_y_start - 5,
                               x_max = label_x + line_width + 15,
                               y_max = label_y_start + total_text_height + 5\<rparr>;
                  overlap_found = list_ex (overlap text_area) areas;
                  tested = [text_area]
              in case (if overlap_found \<and> label_y_start > y_min'
                       then (let label_y_start = y_min' + 10 + line_height;
                                 text_area = text_area\<lparr>y_min := label_y_start - 5,
                                               y_max := label_y_start + total_text_height + 5\<rparr>
                             in (label_y_start, text_area, list_ex (overlap text_area) areas,
                                 tested @ [text_area]))
                       else (label_y_start, text_area, overlap_found, tested)) of
                   (label_y_start, text_area, overlap_found, tested) \<Rightarrow>
                     (case (if overlap_found
                            then (let label_x = min (frame_width - line_width - 15) (x_max' + 10)
                                  in (label_x, text_area\<lparr>x_min := label_x - 15,
                                                x_max := label_x + line_width + 15\<rparr>))
                            else (label_x, text_area)) of
                        (label_x, text_area) \<Rightarrow>
                          (label_x, label_y_start, tested, Some (areas @ [text_area])))))"

text \<open>
  What one call of \<^verbatim>\<open>_draw_wrapped_text\<close> draws: the wrapped lines, the label position,
  the corners of the filled background rectangle (\<^verbatim>\<open>settings.LABEL_BG_COLOR\<close> is not
  \<^verbatim>\<open>None\<close>) and the origin of each line of text.
\<close>

record draw_plan =
  plan_lines :: "string list"
  plan_label_x :: int
  plan_label_y_start :: int
  plan_background :: "(int \<times> int) \<times> (int \<times> int)"
  plan_text_origins :: "(int \<times> int) list"

text \<open>
  \<^verbatim>\<open>_draw_wrapped_text(frame, text, x_min, y_min, x_max, frame_width, used_areas, frame_height)\<close>.
  Of the frame only \<^verbatim>\<open>frame.shape[:2]\<close>, that is \<open>(height, width)\<close>, is read; the
  \<^verbatim>\<open>frame_height\<close> argument is overwritten by it. An empty list of lines returns before
  anything is drawn or recorded. The result is the drawing and the new \<^verbatim>\<open>used_areas\<close>.
\<close>

definition draw_wrapped_text ::
  "getTextSize \<Rightarrow> int \<times> int \<Rightarrow> string \<Rightarrow> int \<Rightarrow> int \<Rightarrow> int \<Rightarrow> int \<Rightarrow> rect list option
     \<Rightarrow> draw_plan option \<times> rect list option" where
  "draw_wrapped_text gts frame_shape text x_min' y_min' x_max' frame_width used_areas =
     (let frame_height = fst frame_shape;
          lines = wrap_lines gts (wrap_width x_min' x_max') text
      in if lines = [] then (None, used_areas)
         else
           (let line_width = fst (gts (hd lines));
                line_height = snd (gts (hd lines));
                total_text_height = int (length lines) * (line_height + TEXT_LINE_SPACING)
            in case place_label line_width line_height total_text_height
                      x_min' y_min' x_max' frame_width used_areas of
                 (label_x, label_y_start, tested, used_areas') \<Rightarrow>
                   (let max_width = foldl (\<lambda>m line. max m (fst (gts line))) 0 lines;
                        padding = 15;
                        bg_y_start = (if label_y_start > y_min' then max 0 (y_min' + 5)
                                      else max 0 (y_min' - total_text_height - padding));
                        bg_y_end = (if label_y_start > y_min'
                                    then min frame_height (y_min' + total_text_height + padding)
                                    else min frame_height (y_min' - 5));
                        bg_x_start = max 0 (label_x - padding);
                        bg_x_end = min frame_width (label_x + max_width + padding);
                        y_pos = (\<lambda>i. if label_y_start > y_min'
                                      then y_min' + (int i * (line_height + TEXT_LINE_SPACING))
                                             + line_height + 10
                                      else y_min' - total_text_height
                                             + (int i * (line_height + TEXT_LINE_SPACING))
                                             + line_height)
                    in (Some \<lparr>plan_lines = lines,
                               plan_label_x = label_x,
                               plan_label_y_start = label_y_start,
                               plan_background = ((bg_x_start, bg_y_start), (bg_x_end, bg_y_end)),
                               plan_text_origins =
                                 map (\<lambda>i. (label_x,
                                             max (line_height + 5) (min (y_pos i) (frame_height - 5))))
                                     [0..<length lines]\<rparr>,
                        used_areas'))))"

text \<open>
  A detection as the model returns it: a dictionary with four normalised coordinates,
  to which the pipeline adds a \<^verbatim>\<open>label\<close>. A coordinate is a finite Python float, given
  by the real number it denotes.
\<close>

record detection = "real box" +
  label :: "string option"

text \<open>
  \<^verbatim>\<open>int(obj["x_min"] * width)\<close> multiplies a float by an int in binary floating point and
  truncates the rounded product towards zero. The rounding belongs to the Python
  runtime, so the whole operation is a parameter of the model: \<open>to_pixel v n\<close> stands
  for \<^verbatim>\<open>int(v * n)\<close>.
\<close>

type_synonym to_pixel = "real \<Rightarrow> int \<Rightarrow> int"

text \<open>
  \<^verbatim>\<open>int(x)\<close> on an exact value truncates towards zero. \<open>exact_pixel\<close> is \<^verbatim>\<open>int(v * n)\<close>
  without rounding of the product; it agrees with the floating-point operation wherever
  the product is a float itself, as for the coordinates \<open>1/4\<close>, \<open>1/2\<close> and \<open>3/4\<close> and the
  frame sizes used in the examples below.
\<close>

definition py_int :: "real \<Rightarrow> int" where
  "py_int x = (if 0 \<le> x then \<lfloor>x\<rfloor> else \<lceil>x\<rceil>)"

definition exact_pixel :: to_pixel where
  "exact_pixel v n = py_int (v * real_of_int n)"

text \<open>
  \<^verbatim>\<open>
  def draw_bounding_boxes(frame, objects):
      height, width, _ = frame.shape
      used_areas = []
      for obj in objects:
          x_min = int(obj["x_min"] * width)
          y_min = int(obj["y_min"] * height)
          x_max = int(obj["x_max"] * width)
          y_max = int(obj["y_max"] * height)
          label = obj.get("label", "")
          cv2.rectangle(frame, (x_min, y_min), (x_max, y_max), ...)
          _draw_wrapped_text(frame, label, x_min, y_min, x_max, width, used_areas, height)
      return frame
  \<close>
  \<open>px\<close> is the conversion \<^verbatim>\<open>int(v * n)\<close>. The result lists, per object, the corners of
  the box that is drawn and the drawing of its label, and gives the footprints recorded
  during the pass.
\<close>

fun draw_boxes_loop ::
  "getTextSize \<Rightarrow> to_pixel \<Rightarrow> int \<times> int \<Rightarrow> detection list \<Rightarrow> rect list
     \<Rightarrow> (rect \<times> draw_plan option) list \<times> rect list" where
  "draw_boxes_loop gts px frame_shape [] used_areas = ([], used_areas)"
| "draw_boxes_loop gts px frame_shape (obj # objects) used_areas =
     (let height = fst frame_shape; width = snd frame_shape;
          x_min' = px (x_min obj) width;
          y_min' = px (y_min obj) height;
          x_max' = px (x_max obj) width;
          y_max' = px (y_max obj) height;
          label' = (case label obj of None \<Rightarrow> [] | Some l \<Rightarrow> l)
      in case draw_wrapped_text gts frame_shape label' x_min' y_min' x_max' width (Some used_areas) of
           (plan, used_areas') \<Rightarrow>
             (case draw_boxes_loop gts px frame_shape objects
                     (case used_areas' of None \<Rightarrow> used_areas | Some areas \<Rightarrow> areas) of
                (drawn, final_areas) \<Rightarrow>
                  ((\<lparr>x_min = x_min', y_min = y_min', x_max = x_max', y_max = y_max'\<rparr>, plan) # drawn,
                   final_areas)))"

definition draw_bounding_boxes ::
  "getTextSize \<Rightarrow> to_pixel \<Rightarrow> int \<times> int \<Rightarrow> detection list
     \<Rightarrow> (rect \<times> draw_plan option) list \<times> rect list" where
  "draw_bounding_boxes gts px frame_shape objects = draw_boxes_loop gts px frame_shape objects []"

text \<open>
  The rectangle of a label's text as the footprint computation takes it: origin
  \<open>(label_x, label_y_start)\<close>, as wide as the first line and as high as all lines.
\<close>

definition text_rect :: "int \<Rightarrow> int \<Rightarrow> int \<Rightarrow> int \<Rightarrow> rect" where
  "text_rect label_x label_y_start line_width total_text_height =
     \<lparr>x_min = label_x, y_min = label_y_start,
      x_max = label_x + line_width, y_max = label_y_start + total_text_height\<rparr>"

text \<open>A rectangle grown by \<open>mx\<close> pixels to the left and right and by \<open>my\<close> pixels at top and bottom.\<close>

definition expand_rect :: "int \<Rightarrow> int \<Rightarrow> rect \<Rightarrow> rect" where
  "expand_rect mx my r =
     \<lparr>x_min = x_min r - mx, y_min = y_min r - my, x_max = x_max r + mx, y_max = y_max r + my\<rparr>"

text \<open>All four coordinates of a rectangle are non-negative and within a canvas of the given size.\<close>

definition within_canvas :: "int \<Rightarrow> int \<Rightarrow> rect \<Rightarrow> bool" where
  "within_canvas canvas_width canvas_height r =
     (0 \<le> x_min r \<and> x_min r \<le> canvas_width \<and> 0 \<le> x_max r \<and> x_max r \<le> canvas_width \<and>
      0 \<le> y_min r \<and> y_min r \<le> canvas_height \<and> 0 \<le> y_max r \<and> y_max r \<le> canvas_height)"

section \<open>The detector wrapper (core/detector.py)\<close>

text \<open>
  The vision-language model is an external capability. \<^verbatim>\<open>self.model.detect\<close> and
  \<^verbatim>\<open>self.model.caption\<close> either raise an exception or return a dictionary, of which
  the wrapper reads one key with a default (\<^verbatim>\<open>result.get("objects", [])\<close>,
  \<^verbatim>\<open>result.get("caption", "")\<close>): \<open>None\<close> stands for a dictionary without that key.
  \<open>py_exception\<close> stands for the exceptions derived from \<^verbatim>\<open>Exception\<close>, with their
  message; these are the ones \<^verbatim>\<open>except Exception\<close> catches.
\<close>

datatype py_exception = Exception string

record 'img model =
  model_detect :: "'img \<Rightarrow> string \<Rightarrow> py_exception + detection list option"
  model_caption :: "'img \<Rightarrow> py_exception + string option"

text \<open>
  \<^verbatim>\<open>
  def detect_objects(self, image, prompt):
      try:
          detection_settings = {"max_objects": settings.MAX_OBJECTS}
          result = self.model.detect(image, prompt, settings=detection_settings)
          return result.get("objects", [])
      except Exception as e:
          print(f"An error occurred during object detection: {e}")
          return []

  def caption_image(self, image):
      try:
          result = self.model.caption(image, length="short")
          return result.get("caption", "")
      except Exception as e:
          print(f"An error occurred during image captioning: {e}")
          return ""
  \<close>
  The printed message is not part of the model.
\<close>

definition detect_objects :: "'img model \<Rightarrow> 'img \<Rightarrow> string \<Rightarrow> detection list" where
  "detect_objects m img prompt =
     (case model_detect m img prompt of
        Inl e \<Rightarrow> []
      | Inr result \<Rightarrow> (case result of None \<Rightarrow> [] | Some objects \<Rightarrow> objects))"

definition caption_image :: "'img model \<Rightarrow> 'img \<Rightarrow> string" where
  "caption_image m img =
     (case model_caption m img of
        Inl e \<Rightarrow> []
      | Inr result \<Rightarrow> (case result of None \<Rightarrow> [] | Some caption \<Rightarrow> caption))"

section \<open>The frame pipeline (core/video_processor.py)\<close>

text \<open>
  The two settings the pipeline reads. \<^verbatim>\<open>settings.py\<close> sets \<^verbatim>\<open>FPS_POLL_RATE = 10\<close> and
  \<^verbatim>\<open>FRAME_SKIP = 5\<close>.
\<close>

record settings =
  FRAME_SKIP :: int
  FPS_POLL_RATE :: int

definition default_settings :: settings where
  "default_settings = \<lparr>FRAME_SKIP = 5, FPS_POLL_RATE = 10\<rparr>"

text \<open>
  The exceptions that can leave \<^verbatim>\<open>_process_frame\<close>: the remainder by a zero
  \<^verbatim>\<open>FRAME_SKIP\<close>, and the \<^verbatim>\<open>ValueError\<close> that \<^verbatim>\<open>Image.crop\<close> raises for a box whose right
  edge is left of its left edge or whose lower edge is above its upper edge. Neither
  is caught in \<^verbatim>\<open>_process_frame\<close> or in \<^verbatim>\<open>run\<close>.
\<close>

datatype py_error = ZeroDivisionError | ValueError

text \<open>
  The operations used on a frame belong to numpy, PIL and the Python runtime:
  \<^verbatim>\<open>frame.shape\<close> (height and width), \<^verbatim>\<open>int(v * n)\<close>, \<^verbatim>\<open>pil_image.crop(box)\<close>, which may
  raise, and \<^verbatim>\<open>image.size\<close> (width and height). They are parameters of the model; the
  colour conversion to a PIL image is not modelled, a frame and its PIL image are the
  same value.
\<close>

record 'img imaging =
  shape :: "'img \<Rightarrow> int \<times> int"
  to_px :: to_pixel
  crop :: "'img \<Rightarrow> int \<times> int \<times> int \<times> int \<Rightarrow> py_error + 'img"
  img_size :: "'img \<Rightarrow> int \<times> int"

text \<open>
  The fields of \<^verbatim>\<open>VideoProcessor\<close> that \<^verbatim>\<open>_process_frame\<close> reads and writes. Wall-clock
  times and the FPS value are Python floats, modelled as reals.
\<close>

record vp_state =
  mode :: string
  frame_count :: int
  fps :: real
  start_time :: real
  latest_objects :: "detection list"

text \<open>The fields as \<^verbatim>\<open>__init__\<close> sets them; \<open>now\<close> is the value of \<^verbatim>\<open>time.time()\<close>.\<close>

definition init_state :: "string \<Rightarrow> real \<Rightarrow> vp_state" where
  "init_state md now =
     \<lparr>mode = md, frame_count = 0, fps = 0, start_time = now, latest_objects = []\<rparr>"

text \<open>
  \<^verbatim>\<open>
  def _calculate_fps(self):
      self.frame_count += 1
      if self.frame_count >= settings.FPS_POLL_RATE:
          end_time = time.time()
          elapsed_time = end_time - self.start_time
          if elapsed_time > 0:
              self.fps = self.frame_count / elapsed_time
          self.start_time = end_time
          self.frame_count = 0
  \<close>
  \<open>now\<close> is the value that \<^verbatim>\<open>time.time()\<close> returns when it is read.
\<close>

definition calculate_fps :: "settings \<Rightarrow> real \<Rightarrow> vp_state \<Rightarrow> vp_state" where
  "calculate_fps cfg now s =
     (let s1 = s\<lparr>frame_count := frame_count s + 1\<rparr>
      in if frame_count s1 \<ge> FPS_POLL_RATE cfg
         then (let end_time = now;
                   elapsed_time = end_time - start_time s1;
                   s2 = (if elapsed_time > 0
                         then s1\<lparr>fps := real_of_int (frame_count s1) / elapsed_time\<rparr>
                         else s1)
               in s2\<lparr>start_time := end_time, frame_count := 0\<rparr>)
         else s1)"

text \<open>
  The body of the loop over the detected objects (lines 100 to 117), for one object.
  The result is the labelled object and the images passed to
  \<^verbatim>\<open>self.detector.caption_image\<close> for it, or the exception raised by \<^verbatim>\<open>crop\<close>.
  \<^verbatim>\<open>
  label = current_prompt
  if self.mode == "caption":
      height, width, _ = frame.shape
      x_min = int(obj["x_min"] * width)
      y_min = int(obj["y_min"] * height)
      x_max = int(obj["x_max"] * width)
      y_max = int(obj["y_max"] * height)
      cropped_image = pil_image.crop((x_min, y_min, x_max, y_max))
      if cropped_image.size[0] > 0 and cropped_image.size[1] > 0:
          label = self.detector.caption_image(cropped_image)
  obj["label"] = label
  processed_objects.append(obj)
  \<close>
\<close>

definition pixel_box :: "'img imaging \<Rightarrow> 'img \<Rightarrow> detection \<Rightarrow> int \<times> int \<times> int \<times> int" where
  "pixel_box io frame obj =
     (let height = fst (shape io frame); width = snd (shape io frame)
      in (to_px io (x_min obj) width, to_px io (y_min obj) height,
          to_px io (x_max obj) width, to_px io (y_max obj) height))"

definition process_object ::
  "'img imaging \<Rightarrow> 'img model \<Rightarrow> string \<Rightarrow> 'img \<Rightarrow> string \<Rightarrow> detection
     \<Rightarrow> py_error + detection \<times> 'img list" where
  "process_object io m md frame current_prompt obj =
     (if md = ''caption''
      then (case crop io frame (pixel_box io frame obj) of
              Inl err \<Rightarrow> Inl err
            | Inr cropped_image \<Rightarrow>
                if fst (img_size io cropped_image) > 0 \<and> snd (img_size io cropped_image) > 0
                then Inr (obj\<lparr>label := Some (caption_image m cropped_image)\<rparr>, [cropped_image])
                else Inr (obj\<lparr>label := Some current_prompt\<rparr>, []))
      else Inr (obj\<lparr>label := Some current_prompt\<rparr>, []))"

text \<open>The loop itself; an exception ends it.\<close>

fun process_objects ::
  "'img imaging \<Rightarrow> 'img model \<Rightarrow> string \<Rightarrow> 'img \<Rightarrow> string \<Rightarrow> detection list
     \<Rightarrow> py_error + detection list \<times> 'img list" where
  "process_objects io m md frame current_prompt [] = Inr ([], [])"
| "process_objects io m md frame current_prompt (obj # detected_objects) =
     (case process_object io m md frame current_prompt obj of
        Inl err \<Rightarrow> Inl err
      | Inr (obj', calls) \<Rightarrow>
          (case process_objects io m md frame current_prompt detected_objects of
             Inl err \<Rightarrow> Inl err
           | Inr (processed_objects, calls') \<Rightarrow> Inr (obj' # processed_objects, calls @ calls')))"

text \<open>The images passed to \<^verbatim>\<open>caption_image\<close> for one object.\<close>

definition caption_calls_for ::
  "'img imaging \<Rightarrow> 'img model \<Rightarrow> string \<Rightarrow> 'img \<Rightarrow> string \<Rightarrow> detection \<Rightarrow> 'img list" where
  "caption_calls_for io m md frame current_prompt obj =
     (case process_object io m md frame current_prompt obj of
        Inl err \<Rightarrow> []
      | Inr (obj', calls) \<Rightarrow> calls)"

text \<open>
  What one call of \<^verbatim>\<open>_process_frame\<close> does besides updating the state: whether
  \<^verbatim>\<open>detect_objects\<close> was called, the images given to \<^verbatim>\<open>caption_image\<close>, the detection
  list passed to \<^verbatim>\<open>drawing.draw_bounding_boxes\<close>, and the FPS value and prompt drawn.
\<close>

record 'img frame_result =
  new_state :: vp_state
  inference_ran :: bool
  caption_calls :: "'img list"
  drawn_objects :: "detection list"
  drawn_fps :: real
  drawn_prompt :: string

text \<open>
  \<^verbatim>\<open>
  def _process_frame(self, frame):
      if self.frame_count % settings.FRAME_SKIP == 0:
          current_prompt = self.shared_state.prompt
          ...
          detected_objects = self.detector.detect_objects(pil_image, current_prompt)
          processed_objects = []
          for obj in detected_objects: ...
          self.latest_objects = processed_objects
      frame = drawing.draw_bounding_boxes(frame, self.latest_objects)
      self._calculate_fps()
      info_text = f"FPS: {self.fps:.2f}"
      frame = drawing.draw_info_text(frame, info_text)
      frame = drawing.draw_prompt_text(frame, self.shared_state.prompt)
      return frame
  \<close>
  \<open>prompt\<close> is the value of the shared prompt during the call and \<open>now\<close> the value of
  the clock. \<open>render_frame\<close> is the second half, from \<^verbatim>\<open>draw_bounding_boxes\<close> on, given
  whether inference ran and which caption calls it made. The remainder by zero raises,
  and so does a \<^verbatim>\<open>crop\<close> that raises.
\<close>

definition render_frame ::
  "settings \<Rightarrow> real \<Rightarrow> string \<Rightarrow> bool \<Rightarrow> 'img list \<Rightarrow> vp_state \<Rightarrow> 'img frame_result" where
  "render_frame cfg now prompt inferred calls s1 =
     (let s2 = calculate_fps cfg now s1
      in \<lparr>new_state = s2,
          inference_ran = inferred,
          caption_calls = calls,
          drawn_objects = latest_objects s1,
          drawn_fps = fps s2,
          drawn_prompt = prompt\<rparr>)"

definition process_frame ::
  "settings \<Rightarrow> 'img imaging \<Rightarrow> 'img model \<Rightarrow> string \<Rightarrow> real \<Rightarrow> 'img \<Rightarrow> vp_state
     \<Rightarrow> py_error + 'img frame_result" where
  "process_frame cfg io m prompt now frame s =
     (if FRAME_SKIP cfg = 0 then Inl ZeroDivisionError
      else if frame_count s mod FRAME_SKIP cfg = 0
      then (case process_objects io m (mode s) frame prompt (detect_objects m frame prompt) of
              Inl err \<Rightarrow> Inl err
            | Inr (processed_objects, calls) \<Rightarrow>
                Inr (render_frame cfg now prompt True calls
                       (s\<lparr>latest_objects := processed_objects\<rparr>)))
      else Inr (render_frame cfg now prompt False [] s))"

text \<open>
  \<^verbatim>\<open>
  def run(self):
      while True:
          ret, frame = self.cap.read()
          if not ret:
              break
          processed_frame = self._process_frame(frame)
          ...
          key = cv2.waitKey(self.frame_delay) & 0xFF
          if key == ord("q"):
              break
      self._cleanup()
  \<close>
  The capture source is the list of its frames; with each frame come the prompt and the
  clock value during its processing and whether the key read after it is \<open>q\<close>. The
  result lists what was done for each processed frame; an exception that leaves
  \<^verbatim>\<open>_process_frame\<close> leaves the loop.
\<close>

fun run ::
  "settings \<Rightarrow> 'img imaging \<Rightarrow> 'img model \<Rightarrow> ('img \<times> string \<times> real \<times> bool) list \<Rightarrow> vp_state
     \<Rightarrow> py_error + 'img frame_result list" where
  "run cfg io m [] s = Inr []"
| "run cfg io m ((frame, prompt, now, key_q) # rest) s =
     (case process_frame cfg io m prompt now frame s of
        Inl e \<Rightarrow> Inl e
      | Inr r \<Rightarrow>
          if key_q then Inr [r]
          else (case run cfg io m rest (new_state r) of
                  Inl e \<Rightarrow> Inl e
                | Inr rs \<Rightarrow> Inr (r # rs)))"

text \<open>
  The model with every exception replaced by an answer without the key that is read:
  an empty dictionary.
\<close>

definition absorbed :: "'img model \<Rightarrow> 'img model" where
  "absorbed m =
     \<lparr>model_detect = (\<lambda>img prompt. case model_detect m img prompt of
                                      Inl e \<Rightarrow> Inr None | Inr result \<Rightarrow> Inr result),
      model_caption = (\<lambda>img. case model_caption m img of
                               Inl e \<Rightarrow> Inr None | Inr result \<Rightarrow> Inr result)\<rparr>"

text \<open>The number of frames the loop processes: all of them, or those up to the first \<open>q\<close> key.\<close>

definition frames_until_quit :: "('img \<times> string \<times> real \<times> bool) list \<Rightarrow> nat" where
  "frames_until_quit events =
     min (length events) (Suc (length (takeWhile (\<lambda>ev. \<not> snd (snd (snd ev))) events)))"

text \<open>
  Fixtures for concrete runs: an image is the pixel region it covers, so that cropping
  to a box gives that box, or raises as PIL does for a box with \<open>right < left\<close> or
  \<open>lower < upper\<close>, and the size of a region is its extent; a model that returns fixed
  answers; a model that raises on every call; and a model that detects fixed objects
  and raises on every caption call.
\<close>

definition region_imaging :: "rect imaging" where
  "region_imaging =
     \<lparr>shape = (\<lambda>r. (y_max r - y_min r, x_max r - x_min r)),
      to_px = exact_pixel,
      crop = (\<lambda>r (a, b, c, d).
                if c < a \<or> d < b then Inl ValueError
                else Inr \<lparr>x_min = a, y_min = b, x_max = c, y_max = d\<rparr>),
      img_size = (\<lambda>r. (x_max r - x_min r, y_max r - y_min r))\<rparr>"

definition canvas :: "int \<Rightarrow> int \<Rightarrow> rect" where
  "canvas width height = \<lparr>x_min = 0, y_min = 0, x_max = width, y_max = height\<rparr>"

definition fixed_model :: "detection list \<Rightarrow> string \<Rightarrow> 'img model" where
  "fixed_model objects caption =
     \<lparr>model_detect = (\<lambda>img prompt. Inr (Some objects)),
      model_caption = (\<lambda>img. Inr (Some caption))\<rparr>"

definition failing_model :: "'img model" where
  "failing_model =
     \<lparr>model_detect = (\<lambda>img prompt. Inl (Exception ''model failure'')),
      model_caption = (\<lambda>img. Inl (Exception ''model failure''))\<rparr>"

definition caption_failing_model :: "detection list \<Rightarrow> 'img model" where
  "caption_failing_model objects =
     \<lparr>model_detect = (\<lambda>img prompt. Inr (Some objects)),
      model_caption = (\<lambda>img. Inl (Exception ''model failure''))\<rparr>"

text \<open>The frames of a run at the default prompt, one clock tick apart, no key pressed.\<close>

definition plain_frames :: "'img \<Rightarrow> nat \<Rightarrow> ('img \<times> string \<times> real \<times> bool) list" where
  "plain_frames frame n = map (\<lambda>i. (frame, ''a person'', real i + 1, False)) [0..<n]"

section \<open>Properties of the overlap test\<close>

text \<open>
  Claim C6. The overlap test is symmetric; every rectangle overlaps itself; two
  rectangles that share an edge (\<open>x_max a = x_min b\<close>) overlap; and two rectangles
  separated by a positive gap on either axis do not overlap.
\<close>

theorem overlap_properties:
  "overlap a b = overlap b a \<and>
   (is_rect r \<longrightarrow> overlap r r) \<and>
   (is_rect c \<and> is_rect d \<and> share_x_edge c d \<longrightarrow> overlap c d) \<and>
   (gap_between e f \<longrightarrow> \<not> overlap e f)"
  by (auto simp: overlap_def is_rect_def share_x_edge_def gap_between_def)

theorem overlap_properties_witness:
  "is_rect \<lparr>x_min = 0, y_min = 0, x_max = 10, y_max = 10\<rparr> \<and>
   is_rect \<lparr>x_min = 10, y_min = 5, x_max = 20, y_max = 30\<rparr> \<and>
   share_x_edge \<lparr>x_min = 0, y_min = 0, x_max = 10, y_max = 10\<rparr>
                \<lparr>x_min = 10, y_min = 5, x_max = 20, y_max = 30\<rparr> \<and>
   gap_between \<lparr>x_min = 0, y_min = 0, x_max = 10, y_max = 10\<rparr>
               \<lparr>x_min = 20, y_min = 20, x_max = 30, y_max = 30\<rparr> \<and>
   overlap \<lparr>x_min = 0, y_min = 0, x_max = 10, y_max = 10\<rparr>
           \<lparr>x_min = 0, y_min = 0, x_max = 10, y_max = 10\<rparr> \<and>
   overlap \<lparr>x_min = 0, y_min = 0, x_max = 10, y_max = 10\<rparr>
           \<lparr>x_min = 10, y_min = 5, x_max = 20, y_max = 30\<rparr> \<and>
   overlap \<lparr>x_min = 10, y_min = 5, x_max = 20, y_max = 30\<rparr>
           \<lparr>x_min = 0, y_min = 0, x_max = 10, y_max = 10\<rparr> \<and>
   \<not> overlap \<lparr>x_min = 0, y_min = 0, x_max = 10, y_max = 10\<rparr>
             \<lparr>x_min = 20, y_min = 20, x_max = 30, y_max = 30\<rparr>"
proof -
  let ?a = "\<lparr>x_min = 0, y_min = 0, x_max = 10, y_max = 10\<rparr> :: rect"
  let ?b = "\<lparr>x_min = 10, y_min = 5, x_max = 20, y_max = 30\<rparr> :: rect"
  let ?g = "\<lparr>x_min = 20, y_min = 20, x_max = 30, y_max = 30\<rparr> :: rect"
  have h1: "is_rect ?a" and h2: "is_rect ?b" by (simp_all add: is_rect_def)
  have h3: "share_x_edge ?a ?b" by (simp add: share_x_edge_def)
  have h4: "gap_between ?a ?g" by (simp add: gap_between_def)
  from overlap_properties [of ?a ?b ?a ?a ?b ?a ?g] h1 h2 h3 h4
  show ?thesis by blast
qed

section \<open>Properties of label placement\<close>

lemmas placement_eval =
  draw_wrapped_text_def place_label_def rule_label_x_def rule_label_y_start_def overlap_def
  wrap_lines_def wrap_width_def strip_def py_isspace_def fixed_pitch_def TEXT_LINE_SPACING_def
  Let_def

lemma place_label_footprint:
  "place_label lw lh tth x y xm fw (Some areas) = (lx, ly, tested, ua) \<Longrightarrow>
   ua = Some (areas @ [expand_rect 15 5 (text_rect lx ly lw tth)])"
  by (auto simp: place_label_def Let_def expand_rect_def text_rect_def split: if_splits)

lemma place_label_tested:
  "place_label lw lh tth x y xm fw (Some areas) = (lx, ly, tested, ua) \<Longrightarrow>
   tested \<noteq> [] \<and>
   hd tested = expand_rect 15 5
                 (text_rect (rule_label_x x lw fw) (rule_label_y_start y lh tth) lw tth) \<and>
   set tested \<subseteq>
     {expand_rect 15 5 (text_rect (rule_label_x x lw fw) (rule_label_y_start y lh tth) lw tth),
      expand_rect 15 5 (text_rect (rule_label_x x lw fw) (y + 10 + lh) lw tth)}"
  by (auto simp: place_label_def Let_def expand_rect_def text_rect_def split: if_splits)

lemma place_label_above_collision:
  assumes "y - 10 - tth > 0"
    and "list_ex (overlap (expand_rect 15 5 (text_rect (rule_label_x x lw fw) (y - 10) lw tth))) areas"
  shows "place_label lw lh tth x y xm fw (Some areas) =
           (min (fw - lw - 15) (xm + 10), y - 10,
            [expand_rect 15 5 (text_rect (rule_label_x x lw fw) (y - 10) lw tth)],
            Some (areas @ [expand_rect 15 5
                             (text_rect (min (fw - lw - 15) (xm + 10)) (y - 10) lw tth)]))"
  using assms
  by (simp add: place_label_def rule_label_y_start_def Let_def expand_rect_def text_rect_def)

text \<open>
  Claim C1, evaluated on the code. Two labels \<open>''a''\<close> (10 by 20 pixels) for the same
  anchor box \<open>(100, 100)-(200, _)\<close> on a 1280 by 720 canvas: the first label was placed
  above the box with footprint \<open>(85, 85)-(125, 120)\<close>. The second call chooses "above",
  collides with that footprint, and goes straight to the shift to the right, still
  above the box: the only candidate tested is the one above, although the "below"
  candidate collides with nothing.
\<close>

theorem above_collision_not_retried_below:
  "draw_wrapped_text (fixed_pitch 10 20) (720, 1280) ''a'' 100 100 200 1280
       (Some [\<lparr>x_min = 85, y_min = 85, x_max = 125, y_max = 120\<rparr>])
     = (Some \<lparr>plan_lines = [''a''], plan_label_x = 210, plan_label_y_start = 90,
              plan_background = ((195, 60), (235, 95)), plan_text_origins = [(210, 95)]\<rparr>,
        Some [\<lparr>x_min = 85, y_min = 85, x_max = 125, y_max = 120\<rparr>,
              \<lparr>x_min = 195, y_min = 85, x_max = 235, y_max = 120\<rparr>]) \<and>
   place_label 10 20 25 100 100 200 1280 (Some [\<lparr>x_min = 85, y_min = 85, x_max = 125, y_max = 120\<rparr>])
     = (210, 90, [\<lparr>x_min = 85, y_min = 85, x_max = 125, y_max = 120\<rparr>],
        Some [\<lparr>x_min = 85, y_min = 85, x_max = 125, y_max = 120\<rparr>,
              \<lparr>x_min = 195, y_min = 85, x_max = 235, y_max = 120\<rparr>]) \<and>
   rule_label_y_start 100 20 25 = 100 - 10 \<and>
   \<not> overlap (expand_rect 15 5 (text_rect 100 (100 + 10 + 20) 10 25))
             \<lparr>x_min = 85, y_min = 85, x_max = 125, y_max = 120\<rparr>"
  by (simp add: placement_eval expand_rect_def text_rect_def)

text \<open>
  Claim C3 as stated fails: the label \<open>''a''\<close> for an anchor box at the canvas corner
  \<open>(0, 0)\<close> records a footprint whose left edge is at \<open>-15\<close>.
\<close>

theorem footprint_outside_canvas:
  "snd (draw_wrapped_text (fixed_pitch 10 20) (720, 1280) ''a'' 0 0 100 1280 (Some []))
     = Some [\<lparr>x_min = - 15, y_min = 25, x_max = 25, y_max = 60\<rparr>] \<and>
   \<not> within_canvas 1280 720 \<lparr>x_min = - 15, y_min = 25, x_max = 25, y_max = 60\<rparr>"
  by (simp add: placement_eval within_canvas_def)

text \<open>
  Claim C3, amended. The footprint is recorded unclamped. What is clamped is the
  background rectangle drawn behind the label: for every call that draws a label, its
  top-left corner has non-negative coordinates and its bottom-right corner lies at
  most at \<open>(frame_width, frame_height)\<close>.
\<close>

theorem background_within_canvas:
  "draw_wrapped_text gts (fh, fw') text x y xm fw ua = (Some plan, ua') \<Longrightarrow>
   plan_background plan = ((bx0, by0), (bx1, by1)) \<Longrightarrow>
   0 \<le> bx0 \<and> 0 \<le> by0 \<and> bx1 \<le> fw \<and> by1 \<le> fh"
  by (auto simp: draw_wrapped_text_def Let_def split: if_splits prod.splits)

theorem background_within_canvas_witness:
  "draw_wrapped_text (fixed_pitch 10 20) (720, 1280) ''a'' 0 0 100 1280 (Some [])
     = (Some \<lparr>plan_lines = [''a''], plan_label_x = 0, plan_label_y_start = 30,
              plan_background = ((0, 5), (25, 40)), plan_text_origins = [(0, 30)]\<rparr>,
        Some [\<lparr>x_min = - 15, y_min = 25, x_max = 25, y_max = 60\<rparr>]) \<and>
   (0::int) \<le> 0 \<and> (0::int) \<le> 5 \<and> (25::int) \<le> 1280 \<and> (40::int) \<le> 720"
proof -
  have h: "draw_wrapped_text (fixed_pitch 10 20) (720, 1280) ''a'' 0 0 100 1280 (Some [])
     = (Some \<lparr>plan_lines = [''a''], plan_label_x = 0, plan_label_y_start = 30,
              plan_background = ((0, 5), (25, 40)), plan_text_origins = [(0, 30)]\<rparr>,
        Some [\<lparr>x_min = - 15, y_min = 25, x_max = 25, y_max = 60\<rparr>])"
    by (simp add: placement_eval)
  from background_within_canvas [OF h, of 0 5 25 40] h show ?thesis by simp
qed

text \<open>
  Claim C5 as stated fails: for the label \<open>''a person''\<close> (80 by 20 pixels) at the anchor
  box \<open>(256, 216)-(768, _)\<close> the recorded footprint is \<open>(241, 201)-(351, 236)\<close>, which is
  not the text rectangle at \<open>(256, 206)\<close> grown by 15 pixels on all four sides.
\<close>

theorem footprint_margin_not_15_all_sides:
  "draw_wrapped_text (fixed_pitch 10 20) (720, 1280) ''a person'' 256 216 768 1280 (Some [])
     = (Some \<lparr>plan_lines = [''a person''], plan_label_x = 256, plan_label_y_start = 206,
              plan_background = ((241, 176), (351, 211)), plan_text_origins = [(256, 211)]\<rparr>,
        Some [\<lparr>x_min = 241, y_min = 201, x_max = 351, y_max = 236\<rparr>]) \<and>
   expand_rect 15 15 (text_rect 256 206 80 25) = \<lparr>x_min = 241, y_min = 191, x_max = 351, y_max = 246\<rparr> \<and>
   \<lparr>x_min = 241, y_min = 201, x_max = 351, y_max = 236\<rparr> \<noteq> expand_rect 15 15 (text_rect 256 206 80 25)"
  by (simp add: placement_eval expand_rect_def text_rect_def)

text \<open>
  Claim C5, amended. The margin is 15 pixels to the left and right and 5 pixels at
  top and bottom. Every candidate tested against the existing footprints is the text
  rectangle at the candidate position grown by these margins, and the footprint
  recorded by a call is the text rectangle at the final label position (first line's
  width, total text height) grown by the same margins.
\<close>

theorem footprint_margins:
  "(place_label lw lh tth x y xm fw (Some areas) = (lx, ly, tested, ua) \<longrightarrow>
      tested \<noteq> [] \<and>
      hd tested = expand_rect 15 5
                    (text_rect (rule_label_x x lw fw) (rule_label_y_start y lh tth) lw tth) \<and>
      set tested \<subseteq>
        {expand_rect 15 5 (text_rect (rule_label_x x lw fw) (rule_label_y_start y lh tth) lw tth),
         expand_rect 15 5 (text_rect (rule_label_x x lw fw) (y + 10 + lh) lw tth)} \<and>
      ua = Some (areas @ [expand_rect 15 5 (text_rect lx ly lw tth)])) \<and>
   (draw_wrapped_text gts frame_shape text x y xm fw (Some areas) = (Some plan, ua') \<longrightarrow>
      ua' = Some (areas @
                  [expand_rect 15 5
                     (text_rect (plan_label_x plan) (plan_label_y_start plan)
                        (fst (gts (hd (plan_lines plan))))
                        (int (length (plan_lines plan))
                           * (snd (gts (hd (plan_lines plan))) + TEXT_LINE_SPACING)))]))"
proof (intro conjI impI)
  assume "draw_wrapped_text gts frame_shape text x y xm fw (Some areas) = (Some plan, ua')"
  then show "ua' = Some (areas @
                  [expand_rect 15 5
                     (text_rect (plan_label_x plan) (plan_label_y_start plan)
                        (fst (gts (hd (plan_lines plan))))
                        (int (length (plan_lines plan))
                           * (snd (gts (hd (plan_lines plan))) + TEXT_LINE_SPACING)))])"
    by (auto simp: draw_wrapped_text_def Let_def split: if_splits prod.splits
             dest: place_label_footprint)
next
  assume h: "place_label lw lh tth x y xm fw (Some areas) = (lx, ly, tested, ua)"
  from place_label_tested [OF h] show "tested \<noteq> []" by blast
  from place_label_tested [OF h]
  show "hd tested = expand_rect 15 5
                    (text_rect (rule_label_x x lw fw) (rule_label_y_start y lh tth) lw tth)"
    by blast
  from place_label_tested [OF h]
  show "set tested \<subseteq>
        {expand_rect 15 5 (text_rect (rule_label_x x lw fw) (rule_label_y_start y lh tth) lw tth),
         expand_rect 15 5 (text_rect (rule_label_x x lw fw) (y + 10 + lh) lw tth)}"
    by blast
  from place_label_footprint [OF h]
  show "ua = Some (areas @ [expand_rect 15 5 (text_rect lx ly lw tth)])" .
qed

theorem footprint_margins_witness:
  "place_label 80 20 25 256 216 768 1280 (Some [])
     = (256, 206, [\<lparr>x_min = 241, y_min = 201, x_max = 351, y_max = 236\<rparr>],
        Some [\<lparr>x_min = 241, y_min = 201, x_max = 351, y_max = 236\<rparr>]) \<and>
   draw_wrapped_text (fixed_pitch 10 20) (720, 1280) ''a person'' 256 216 768 1280 (Some [])
     = (Some \<lparr>plan_lines = [''a person''], plan_label_x = 256, plan_label_y_start = 206,
              plan_background = ((241, 176), (351, 211)), plan_text_origins = [(256, 211)]\<rparr>,
        Some [\<lparr>x_min = 241, y_min = 201, x_max = 351, y_max = 236\<rparr>]) \<and>
   Some [\<lparr>x_min = 241, y_min = 201, x_max = 351, y_max = 236\<rparr>]
     = Some ([] @ [expand_rect 15 5 (text_rect 256 206 80 25)])"
proof -
  have h1: "place_label 80 20 25 256 216 768 1280 (Some [])
     = (256, 206, [\<lparr>x_min = 241, y_min = 201, x_max = 351, y_max = 236\<rparr>],
        Some [\<lparr>x_min = 241, y_min = 201, x_max = 351, y_max = 236\<rparr>])"
    by (simp add: placement_eval)
  have h2: "draw_wrapped_text (fixed_pitch 10 20) (720, 1280) ''a person'' 256 216 768 1280 (Some [])
     = (Some \<lparr>plan_lines = [''a person''], plan_label_x = 256, plan_label_y_start = 206,
              plan_background = ((241, 176), (351, 211)), plan_text_origins = [(256, 211)]\<rparr>,
        Some [\<lparr>x_min = 241, y_min = 201, x_max = 351, y_max = 236\<rparr>])"
    by (simp add: placement_eval)
  from footprint_margins [of 80 20 25 256 216 768 1280 "[]" 256 206
      "[\<lparr>x_min = 241, y_min = 201, x_max = 351, y_max = 236\<rparr>]"
      "Some [\<lparr>x_min = 241, y_min = 201, x_max = 351, y_max = 236\<rparr>]"
      "fixed_pitch 10 20" "(720, 1280)" "''a person''"
      "\<lparr>plan_lines = [''a person''], plan_label_x = 256, plan_label_y_start = 206,
        plan_background = ((241, 176), (351, 211)), plan_text_origins = [(256, 211)]\<rparr>"
      "Some [\<lparr>x_min = 241, y_min = 201, x_max = 351, y_max = 236\<rparr>]"] h1 h2
  show ?thesis
    by (simp add: fixed_pitch_def TEXT_LINE_SPACING_def expand_rect_def text_rect_def
                  rule_label_x_def rule_label_y_start_def)
qed

section \<open>Properties of word wrapping\<close>

lemma py_isspace_space: "py_isspace CHR '' ''"
  by (simp add: py_isspace_def)

lemma word_ok_line_ok: "word_ok w \<Longrightarrow> line_ok w"
  by (cases w) (auto simp: word_ok_def line_ok_def)

lemma strip_line: "line_ok l \<Longrightarrow> strip l = l"
proof (cases l)
  case Nil then show ?thesis by (simp add: strip_def)
next
  case (Cons c cs)
  assume "line_ok l"
  with Cons have h: "\<not> py_isspace c" and t: "\<not> py_isspace (last (c # cs))"
    by (auto simp: line_ok_def)
  have "dropWhile py_isspace (rev (c # cs)) = rev (c # cs)"
    using t by (metis dropWhile.simps(2) hd_rev list.exhaust_sel rev_is_Nil_conv list.distinct(1))
  with h Cons show ?thesis by (simp add: strip_def)
qed

lemma strip_word: "word_ok w \<Longrightarrow> strip w = w"
  by (simp add: strip_line word_ok_line_ok)

lemma strip_join:
  assumes "line_ok cur" "word_ok w"
  shows "strip (cur @ '' '' @ w) =
           (if cur = [] then w else if w = [] then cur else cur @ '' '' @ w)"
proof (cases "cur = []")
  case True
  have "strip ('' '' @ w) = strip w"
    by (simp add: strip_def py_isspace_space)
  with True strip_word [OF assms(2)] show ?thesis by simp
next
  case False
  then obtain c cs where cur: "cur = c # cs" by (cases cur) auto
  with assms have h: "\<not> py_isspace c" and t: "\<not> py_isspace (last cur)"
    by (auto simp: line_ok_def)
  show ?thesis
  proof (cases "w = []")
    case True
    have "strip (cur @ '' '') = strip cur"
      using h cur by (simp add: strip_def py_isspace_space)
    with True False strip_line [OF assms(1)] show ?thesis by simp
  next
    case False
    then have "line_ok (cur @ '' '' @ w)"
      using h cur assms(2) by (auto simp: line_ok_def word_ok_def)
    from strip_line [OF this] False cur show ?thesis by simp
  qed
qed

lemma line_ok_strip_join:
  assumes "line_ok cur" "word_ok w"
  shows "line_ok (strip (cur @ '' '' @ w))"
proof -
  have "line_ok (cur @ '' '' @ w)" if "cur \<noteq> []" "w \<noteq> []"
    using that assms by (cases cur) (auto simp: line_ok_def word_ok_def)
  with assms strip_join [OF assms] show ?thesis
    by (auto simp: word_ok_line_ok)
qed

lemma join_sp_Cons: "ls \<noteq> [] \<Longrightarrow> join_sp (l # ls) = l @ '' '' @ join_sp ls"
  by (cases ls) auto

lemma join_sp_merge: "join_sp (xs @ (a @ '' '' @ b) # ys) = join_sp (xs @ a # b # ys)"
proof (induction xs)
  case Nil
  show ?case by (cases ys) auto
next
  case (Cons x xs)
  then show ?case by (simp add: join_sp_Cons)
qed

lemma wrap_loop_step:
  "wrap_loop gts ww (w # ws) lines cur =
     (if fst (gts (strip (cur @ '' '' @ w))) > ww \<and> cur \<noteq> []
      then wrap_loop gts ww ws (lines @ [cur]) w
      else wrap_loop gts ww ws lines (strip (cur @ '' '' @ w)))"
  by (simp add: Let_def)

lemma wrap_loop_join:
  assumes "\<forall>w\<in>set ws. word_ok w" "line_ok cur"
  shows "join_sp (flush (wrap_loop gts ww ws lines cur)) =
         join_sp (lines @ (if cur = [] then [] else [cur]) @ filter (\<lambda>w. w \<noteq> []) ws)"
  using assms
proof (induction ws arbitrary: lines cur)
  case Nil
  then show ?case by (simp add: flush_def)
next
  case (Cons w ws)
  from Cons.prems(1) have w: "word_ok w" and ws: "\<forall>w\<in>set ws. word_ok w" by simp_all
  define T where "T = strip (cur @ '' '' @ w)"
  have T: "T = (if cur = [] then w else if w = [] then cur else cur @ '' '' @ w)"
    unfolding T_def by (rule strip_join [OF Cons.prems(2) w])
  have okT: "line_ok T"
    unfolding T_def by (rule line_ok_strip_join [OF Cons.prems(2) w])
  have step: "wrap_loop gts ww (w # ws) lines cur =
     (if fst (gts T) > ww \<and> cur \<noteq> [] then wrap_loop gts ww ws (lines @ [cur]) w
      else wrap_loop gts ww ws lines T)"
    unfolding T_def by (rule wrap_loop_step)
  show ?case
  proof (cases "fst (gts T) > ww \<and> cur \<noteq> []")
    case True
    with Cons.IH [OF ws word_ok_line_ok [OF w], of "lines @ [cur]"] step
    show ?thesis by simp
  next
    case False
    have "join_sp (lines @ (if T = [] then [] else [T]) @ filter (\<lambda>w. w \<noteq> []) ws) =
          join_sp (lines @ (if cur = [] then [] else [cur]) @ filter (\<lambda>w. w \<noteq> []) (w # ws))"
      using join_sp_merge [of lines cur w "filter (\<lambda>w. w \<noteq> []) ws"]
      by (simp add: T)
    with Cons.IH [OF ws okT, of lines] step False show ?thesis by simp
  qed
qed


lemma split_on_not_Nil: "split_on sep cs \<noteq> []"
  by (induction cs) (auto split: list.splits)

lemma split_on_elems: "w \<in> set (split_on sep cs) \<Longrightarrow> sep \<notin> set w \<and> set w \<subseteq> set cs"
proof (induction cs arbitrary: w)
  case Nil
  then show ?case by simp
next
  case (Cons c cs)
  show ?case
  proof (cases "c = sep")
    case True
    with Cons show ?thesis by auto
  next
    case False
    obtain v vs where v: "split_on sep cs = v # vs"
      using split_on_not_Nil [of sep cs] by (cases "split_on sep cs") auto
    with False Cons.prems have "w = c # v \<or> w \<in> set vs" by auto
    with Cons.IH [of v] Cons.IH [of w] v False show ?thesis by auto
  qed
qed

lemma split_on_word_ok:
  assumes "only_space_ws text" "w \<in> set (split_on CHR '' '' text)"
  shows "word_ok w"
  using split_on_elems [OF assms(2)] assms(1)
  by (auto simp: word_ok_def only_space_ws_def list_all_iff)

lemma split_on_append: "split_on sep (a @ sep # b) = split_on sep a @ split_on sep b"
proof (induction a)
  case Nil
  show ?case by simp
next
  case (Cons c a)
  obtain v vs where v: "split_on sep a = v # vs"
    using split_on_not_Nil [of sep a] by (cases "split_on sep a") auto
  with Cons show ?case by simp
qed

lemma split_on_no_sep: "sep \<notin> set w \<Longrightarrow> split_on sep w = [w]"
  by (induction w) auto

lemma sp_words_Nil: "sp_words [] = []"
  by (simp add: sp_words_def)

lemma sp_words_word:
  assumes "word_ok w"
  shows "sp_words w = (if w = [] then [] else [w])"
proof -
  have "CHR '' '' \<notin> set w"
    using assms py_isspace_space unfolding word_ok_def by blast
  then have "split_on CHR '' '' w = [w]" by (rule split_on_no_sep)
  then show ?thesis by (simp add: sp_words_def)
qed

lemma sp_words_join: "sp_words (a @ '' '' @ b) = sp_words a @ sp_words b"
proof -
  have "split_on CHR '' '' (a @ CHR '' '' # b) = split_on CHR '' '' a @ split_on CHR '' '' b"
    by (rule split_on_append)
  then show ?thesis by (simp add: sp_words_def)
qed

lemma sp_words_strip_join:
  assumes "line_ok cur" "word_ok w"
  shows "sp_words (strip (cur @ '' '' @ w)) = sp_words cur @ (if w = [] then [] else [w])"
proof -
  have "sp_words (cur @ '' '' @ w) = sp_words cur @ (if w = [] then [] else [w])"
    using sp_words_join [of cur w] sp_words_word [OF assms(2)] by simp
  with strip_join [OF assms] sp_words_word [OF assms(2)] show ?thesis
    by (auto simp: sp_words_Nil)
qed

lemma wrap_loop_words:
  assumes "\<forall>w\<in>set ws. word_ok w" "line_ok cur"
  shows "concat (map sp_words (flush (wrap_loop gts ww ws lines cur))) =
         concat (map sp_words lines) @ sp_words cur @ filter (\<lambda>w. w \<noteq> []) ws"
  using assms
proof (induction ws arbitrary: lines cur)
  case Nil
  then show ?case by (simp add: flush_def sp_words_Nil)
next
  case (Cons w ws)
  from Cons.prems(1) have w: "word_ok w" and ws: "\<forall>w\<in>set ws. word_ok w" by simp_all
  define T where "T = strip (cur @ '' '' @ w)"
  have T: "sp_words T = sp_words cur @ (if w = [] then [] else [w])"
    unfolding T_def by (rule sp_words_strip_join [OF Cons.prems(2) w])
  have okT: "line_ok T"
    unfolding T_def by (rule line_ok_strip_join [OF Cons.prems(2) w])
  have step: "wrap_loop gts ww (w # ws) lines cur =
     (if fst (gts T) > ww \<and> cur \<noteq> [] then wrap_loop gts ww ws (lines @ [cur]) w
      else wrap_loop gts ww ws lines T)"
    unfolding T_def by (rule wrap_loop_step)
  show ?case
  proof (cases "fst (gts T) > ww \<and> cur \<noteq> []")
    case True
    with Cons.IH [OF ws word_ok_line_ok [OF w], of "lines @ [cur]"] step sp_words_word [OF w]
    show ?thesis by simp
  next
    case False
    with Cons.IH [OF ws okT, of lines] step T show ?thesis by simp
  qed
qed

lemma wrap_loop_fits:
  assumes "\<forall>w\<in>set ws. word_ok w" "line_ok cur"
    and "\<forall>l\<in>set lines. line_fits gts ww l" "cur = [] \<or> line_fits gts ww cur"
  shows "\<forall>l\<in>set (flush (wrap_loop gts ww ws lines cur)). line_fits gts ww l"
  using assms
proof (induction ws arbitrary: lines cur)
  case Nil
  from Nil(3,4) show ?case by (auto simp: flush_def)
next
  case (Cons w ws)
  from Cons.prems(1) have w: "word_ok w" and ws: "\<forall>w\<in>set ws. word_ok w" by simp_all
  define T where "T = strip (cur @ '' '' @ w)"
  have T: "T = (if cur = [] then w else if w = [] then cur else cur @ '' '' @ w)"
    unfolding T_def by (rule strip_join [OF Cons.prems(2) w])
  have okT: "line_ok T"
    unfolding T_def by (rule line_ok_strip_join [OF Cons.prems(2) w])
  have step: "wrap_loop gts ww (w # ws) lines cur =
     (if fst (gts T) > ww \<and> cur \<noteq> [] then wrap_loop gts ww ws (lines @ [cur]) w
      else wrap_loop gts ww ws lines T)"
    unfolding T_def by (rule wrap_loop_step)
  show ?case
  proof (cases "fst (gts T) > ww \<and> cur \<noteq> []")
    case True
    then have "line_fits gts ww cur" using Cons.prems(4) by blast
    with Cons.prems(3) have a: "\<forall>l\<in>set (lines @ [cur]). line_fits gts ww l" by simp
    have b: "w = [] \<or> line_fits gts ww w"
      using w unfolding line_fits_def by blast
    from Cons.IH [OF ws word_ok_line_ok [OF w] a b] step True show ?thesis by simp
  next
    case False
    have b: "T = [] \<or> line_fits gts ww T"
    proof (cases "cur = []")
      case True
      with T have "T = w" by simp
      with w show ?thesis unfolding line_fits_def by blast
    next
      case False
      with \<open>\<not> (fst (gts T) > ww \<and> cur \<noteq> [])\<close> have "fst (gts T) \<le> ww" by simp
      then show ?thesis unfolding line_fits_def by blast
    qed
    from Cons.IH [OF ws okT Cons.prems(3) b] step False show ?thesis by simp
  qed
qed

lemma flush_lines_subset: "set lines \<subseteq> set (flush (wrap_loop gts ww ws lines cur))"
proof (induction ws arbitrary: lines cur)
  case Nil
  show ?case by (auto simp: flush_def)
next
  case (Cons w ws)
  have "set (lines @ [cur]) \<subseteq> set (flush (wrap_loop gts ww ws (lines @ [cur]) w))"
    by (rule Cons.IH)
  moreover have "set lines \<subseteq> set (flush (wrap_loop gts ww ws lines (strip (cur @ '' '' @ w))))"
    by (rule Cons.IH)
  ultimately show ?case
    unfolding wrap_loop_step by auto
qed

lemma overlong_current_kept:
  assumes mono: "monotone_width gts"
    and ws: "\<forall>w\<in>set ws. word_ok w" and cur: "line_ok cur" "cur \<noteq> []" "fst (gts cur) > ww"
  shows "cur \<in> set (flush (wrap_loop gts ww ws lines cur))"
proof (cases ws)
  case Nil
  with cur show ?thesis by (simp add: flush_def)
next
  case (Cons w ws')
  with ws have w: "word_ok w" by simp
  define T where "T = strip (cur @ '' '' @ w)"
  have T: "T = (if w = [] then cur else cur @ '' '' @ w)"
    unfolding T_def using strip_join [OF cur(1) w] cur(2) by simp
  have "fst (gts cur) \<le> fst (gts (cur @ '' '' @ w))"
    using mono unfolding monotone_width_def by blast
  with T cur(3) have "fst (gts T) > ww" by (simp split: if_splits)
  with cur(2) have "wrap_loop gts ww (w # ws') lines cur = wrap_loop gts ww ws' (lines @ [cur]) w"
    unfolding wrap_loop_step T_def by simp
  moreover have "cur \<in> set (flush (wrap_loop gts ww ws' (lines @ [cur]) w))"
    using flush_lines_subset [of "lines @ [cur]" gts ww ws' w] by auto
  ultimately show ?thesis using Cons by simp
qed

lemma overlong_word_kept:
  assumes mono: "monotone_width gts"
    and ws: "\<forall>w\<in>set ws. word_ok w" and cur: "line_ok cur"
    and v: "v \<in> set ws" "v \<noteq> []" "fst (gts v) > ww"
  shows "v \<in> set (flush (wrap_loop gts ww ws lines cur))"
  using ws cur v(1)
proof (induction ws arbitrary: lines cur)
  case Nil
  then show ?case by simp
next
  case (Cons w ws)
  from Cons.prems(1) have w: "word_ok w" and ws: "\<forall>w\<in>set ws. word_ok w" by simp_all
  define T where "T = strip (cur @ '' '' @ w)"
  have T: "T = (if cur = [] then w else if w = [] then cur else cur @ '' '' @ w)"
    unfolding T_def by (rule strip_join [OF Cons.prems(2) w])
  have okT: "line_ok T"
    unfolding T_def by (rule line_ok_strip_join [OF Cons.prems(2) w])
  have step: "wrap_loop gts ww (w # ws) lines cur =
     (if fst (gts T) > ww \<and> cur \<noteq> [] then wrap_loop gts ww ws (lines @ [cur]) w
      else wrap_loop gts ww ws lines T)"
    unfolding T_def by (rule wrap_loop_step)
  have vok: "line_ok v" using Cons.prems(1,3) word_ok_line_ok by blast
  show ?case
  proof (cases "v = w")
    case True
    have wide: "fst (gts w) \<le> fst (gts (cur @ '' '' @ w))"
      using mono unfolding monotone_width_def by blast
    show ?thesis
    proof (cases "cur = []")
      case True
      with T have "T = w" by simp
      with step True have "wrap_loop gts ww (w # ws) lines cur = wrap_loop gts ww ws lines w"
        by simp
      with overlong_current_kept [OF mono ws vok v(2,3), of lines] \<open>v = w\<close>
      show ?thesis by simp
    next
      case False
      with T v(2) \<open>v = w\<close> have "T = cur @ '' '' @ w" by simp
      with wide v(3) \<open>v = w\<close> have "fst (gts T) > ww" by simp
      with step False
      have "wrap_loop gts ww (w # ws) lines cur = wrap_loop gts ww ws (lines @ [cur]) w"
        by simp
      with overlong_current_kept [OF mono ws vok v(2,3), of "lines @ [cur]"] \<open>v = w\<close>
      show ?thesis by simp
    qed
  next
    case False
    with Cons.prems(3) have in_ws: "v \<in> set ws" by simp
    from Cons.IH [OF ws word_ok_line_ok [OF w] in_ws, of "lines @ [cur]"]
         Cons.IH [OF ws okT in_ws, of lines] step
    show ?thesis by simp
  qed
qed

lemma fits_one_line:
  assumes mono: "monotone_width gts"
    and ws: "\<forall>w\<in>set ws. word_ok w" and cur: "line_ok cur"
    and fits: "fst (gts (join_sp ((if cur = [] then [] else [cur]) @ filter (\<lambda>w. w \<noteq> []) ws))) \<le> ww"
  shows "wrap_loop gts ww ws lines cur =
           (lines, join_sp ((if cur = [] then [] else [cur]) @ filter (\<lambda>w. w \<noteq> []) ws))"
  using ws cur fits
proof (induction ws arbitrary: cur)
  case Nil
  then show ?case by simp
next
  case (Cons w ws)
  from Cons.prems(1) have w: "word_ok w" and ws: "\<forall>w\<in>set ws. word_ok w" by simp_all
  define T where "T = strip (cur @ '' '' @ w)"
  define rest where "rest = filter (\<lambda>w. w \<noteq> []) ws"
  have T: "T = (if cur = [] then w else if w = [] then cur else cur @ '' '' @ w)"
    unfolding T_def by (rule strip_join [OF Cons.prems(2) w])
  have okT: "line_ok T"
    unfolding T_def by (rule line_ok_strip_join [OF Cons.prems(2) w])
  have step: "wrap_loop gts ww (w # ws) lines cur =
     (if fst (gts T) > ww \<and> cur \<noteq> [] then wrap_loop gts ww ws (lines @ [cur]) w
      else wrap_loop gts ww ws lines T)"
    unfolding T_def by (rule wrap_loop_step)
  have same: "join_sp ((if T = [] then [] else [T]) @ rest) =
              join_sp ((if cur = [] then [] else [cur]) @ filter (\<lambda>w. w \<noteq> []) (w # ws))"
    using join_sp_merge [of "[]" cur w rest] unfolding rest_def by (simp add: T)
  have nobreak: "\<not> (fst (gts T) > ww \<and> cur \<noteq> [])"
  proof (cases "cur = []")
    case True
    then show ?thesis by simp
  next
    case False
    with T have Tne: "T \<noteq> []" by (simp split: if_splits)
    have "fst (gts T) \<le> fst (gts (join_sp ((if T = [] then [] else [T]) @ rest)))"
    proof (cases "rest = []")
      case True
      with Tne show ?thesis by simp
    next
      case False
      with Tne have "join_sp ((if T = [] then [] else [T]) @ rest) = T @ '' '' @ join_sp rest"
        by (simp add: join_sp_Cons)
      then show ?thesis using mono unfolding monotone_width_def by simp
    qed
    with same Cons.prems(3) show ?thesis by simp
  qed
  have fitsT: "fst (gts (join_sp ((if T = [] then [] else [T]) @ filter (\<lambda>w. w \<noteq> []) ws))) \<le> ww"
    using same Cons.prems(3) unfolding rest_def by simp
  from Cons.IH [OF ws okT fitsT] step nobreak same show ?case
    unfolding rest_def by simp
qed

lemma ws_words_acc_split:
  assumes "only_space_ws cs"
  shows "ws_words_acc acc cs =
           filter (\<lambda>w. w \<noteq> [])
             ((rev acc @ hd (split_on CHR '' '' cs)) # tl (split_on CHR '' '' cs))"
  using assms
proof (induction cs arbitrary: acc)
  case Nil
  show ?case by simp
next
  case (Cons c cs)
  from Cons.prems have cs: "only_space_ws cs" and c: "py_isspace c \<longrightarrow> c = CHR '' ''"
    by (simp_all add: only_space_ws_def)
  obtain v vs where v: "split_on CHR '' '' cs = v # vs"
    using split_on_not_Nil [of "CHR '' ''" cs] by (cases "split_on CHR '' '' cs") auto
  show ?case
  proof (cases "c = CHR '' ''")
    case True
    with Cons.IH [OF cs, of "[]"] v py_isspace_space show ?thesis by simp
  next
    case False
    with c have "\<not> py_isspace c" by blast
    with Cons.IH [OF cs, of "c # acc"] v False show ?thesis by simp
  qed
qed

lemma ws_words_sp_words: "only_space_ws text \<Longrightarrow> ws_words text = sp_words text"
  using ws_words_acc_split [of "text" "[]"] split_on_not_Nil [of "CHR '' ''" "text"]
  by (simp add: ws_words_def sp_words_def)

lemma monotone_fixed_pitch: "0 \<le> w \<Longrightarrow> monotone_width (fixed_pitch w h)"
  by (simp add: monotone_width_def fixed_pitch_def algebra_simps)

lemma wrap_lines_flush:
  "wrap_lines gts ww text = flush (wrap_loop gts ww (split_on CHR '' '' text) [] [])"
  by (simp add: wrap_lines_def flush_def split: prod.splits)

lemma greedy_breaks_snoc:
  "greedy_breaks gts ww (lines @ [c]) =
     (greedy_breaks gts ww lines \<and>
      (lines \<noteq> [] \<longrightarrow> fst (gts (last lines @ '' '' @ hd (sp_words c))) > ww))"
  by (induction gts ww lines rule: greedy_breaks.induct) auto

lemma sp_words_line_not_Nil:
  assumes "line_ok cur" "cur \<noteq> []"
  shows "sp_words cur \<noteq> []"
proof -
  from assms obtain c cs where cur: "cur = c # cs" and c: "\<not> py_isspace c"
    by (cases cur) (auto simp: line_ok_def)
  from c py_isspace_space have ne: "c \<noteq> CHR '' ''" by blast
  obtain v vs where v: "split_on CHR '' '' cs = v # vs"
    using split_on_not_Nil [of "CHR '' ''" cs] by (cases "split_on CHR '' '' cs") auto
  from cur ne v show ?thesis by (simp add: sp_words_def)
qed

lemma wrap_loop_greedy:
  assumes mono: "monotone_width gts"
    and "\<forall>w\<in>set ws. word_ok w" "line_ok cur"
    and "greedy_breaks gts ww lines" "break_pending gts ww lines cur"
  shows "greedy_breaks gts ww (flush (wrap_loop gts ww ws lines cur))"
  using assms(2-)
proof (induction ws arbitrary: lines cur)
  case Nil
  from Nil(3,4) show ?case
    by (auto simp: flush_def greedy_breaks_snoc break_pending_def)
next
  case (Cons w ws)
  from Cons.prems(1) have w: "word_ok w" and ws: "\<forall>w\<in>set ws. word_ok w" by simp_all
  define T where "T = strip (cur @ '' '' @ w)"
  have T: "T = (if cur = [] then w else if w = [] then cur else cur @ '' '' @ w)"
    unfolding T_def by (rule strip_join [OF Cons.prems(2) w])
  have spT: "sp_words T = sp_words cur @ (if w = [] then [] else [w])"
    unfolding T_def by (rule sp_words_strip_join [OF Cons.prems(2) w])
  have okT: "line_ok T"
    unfolding T_def by (rule line_ok_strip_join [OF Cons.prems(2) w])
  have step: "wrap_loop gts ww (w # ws) lines cur =
     (if fst (gts T) > ww \<and> cur \<noteq> [] then wrap_loop gts ww ws (lines @ [cur]) w
      else wrap_loop gts ww ws lines T)"
    unfolding T_def by (rule wrap_loop_step)
  show ?case
  proof (cases "fst (gts T) > ww \<and> cur \<noteq> []")
    case True
    then have wide: "fst (gts T) > ww" and cur: "cur \<noteq> []" by simp_all
    have g: "greedy_breaks gts ww (lines @ [cur])"
      using Cons.prems(3,4) cur by (auto simp: greedy_breaks_snoc break_pending_def)
    have "fst (gts cur) > ww" if "w = []"
      using that T cur wide by simp
    moreover have "fst (gts (cur @ '' '' @ hd (sp_words w))) > ww" if "w \<noteq> []"
      using that T cur wide sp_words_word [OF w] by simp
    ultimately have p: "break_pending gts ww (lines @ [cur]) w"
      by (auto simp: break_pending_def)
    from Cons.IH [OF ws word_ok_line_ok [OF w] g p] step True show ?thesis by simp
  next
    case False
    have p: "break_pending gts ww lines T"
    proof (cases "lines = []")
      case True
      then show ?thesis by (auto simp: break_pending_def)
    next
      case lines: False
      show ?thesis
      proof (cases "cur = []")
        case True
        with Cons.prems(4) lines have last_wide: "fst (gts (last lines)) > ww"
          by (auto simp: break_pending_def)
        from True T have Tw: "T = w" by simp
        show ?thesis
        proof (cases "w = []")
          case True
          with Tw last_wide lines show ?thesis by (auto simp: break_pending_def)
        next
          case False
          have "fst (gts (last lines)) \<le> fst (gts (last lines @ '' '' @ w))"
            using mono unfolding monotone_width_def by blast
          with last_wide have "fst (gts (last lines @ '' '' @ w)) > ww" by simp
          with Tw False sp_words_word [OF w] show ?thesis by (auto simp: break_pending_def)
        qed
      next
        case False
        with T have Tne: "T \<noteq> []" by (simp split: if_splits)
        from sp_words_line_not_Nil [OF Cons.prems(2) False] spT
        have "hd (sp_words T) = hd (sp_words cur)" by simp
        with Cons.prems(4) lines False Tne show ?thesis by (auto simp: break_pending_def)
      qed
    qed
    from Cons.IH [OF ws okT Cons.prems(3) p] step False show ?thesis by simp
  qed
qed

lemma wrap_lines_greedy:
  assumes "monotone_width gts" "only_space_ws text"
  shows "greedy_breaks gts ww (wrap_lines gts ww text)"
proof -
  have ws: "\<forall>w\<in>set (split_on CHR '' '' text). word_ok w"
    using split_on_word_ok [OF assms(2)] by blast
  have l: "line_ok []" by (simp add: line_ok_def)
  have g: "greedy_breaks gts ww []" by simp
  have p: "break_pending gts ww [] []" by (auto simp: break_pending_def)
  from wrap_loop_greedy [OF assms(1) ws l g p] show ?thesis
    by (simp add: wrap_lines_flush)
qed

lemma only_space_split_ok:
  "only_space_ws text \<Longrightarrow> \<forall>w\<in>set (split_on CHR '' '' text). word_ok w"
  using split_on_word_ok by blast

lemma line_ok_Nil: "line_ok []"
  by (simp add: line_ok_def)

text \<open>
  Claim C7 as stated fails: the text \<open>aaaa<TAB>bbbb\<close> holds two words separated by
  whitespace, each 160 pixels wide under a 40-pixel fixed pitch, yet it is not split at
  the tab: it comes out as one line of 360 pixels, wider than the wrap width 300.
\<close>

theorem wrap_ignores_other_whitespace:
  "wrap_lines (fixed_pitch 40 20) (wrap_width 100 200)
       (''aaaa'' @ [CHR 0x09] @ ''bbbb'') = [''aaaa'' @ [CHR 0x09] @ ''bbbb''] \<and>
   ws_words (''aaaa'' @ [CHR 0x09] @ ''bbbb'') = [''aaaa'', ''bbbb''] \<and>
   fst (fixed_pitch 40 20 ''aaaa'') \<le> wrap_width 100 200 \<and>
   fst (fixed_pitch 40 20 ''bbbb'') \<le> wrap_width 100 200 \<and>
   fst (fixed_pitch 40 20 (''aaaa'' @ [CHR 0x09] @ ''bbbb'')) > wrap_width 100 200"
  by (simp add: wrap_lines_def wrap_width_def strip_def py_isspace_def fixed_pitch_def
                ws_words_def Let_def)

text \<open>
  Claim C7, amended. Word wrap splits the text at the space character only. For every
  text whose only whitespace characters are spaces and every anchor box, with
  \<open>wrap_width = max 300 (x_max - x_min)\<close>: the lines cut the sequence of words of the
  text at word boundaries (no word is split, dropped, repeated or moved); every line is
  non-empty and either is at most \<open>wrap_width\<close> wide or is a single word; and, for a
  text measurement under which a line does not get narrower when a word is added to it,
  every word that alone exceeds \<open>wrap_width\<close> is a line of its own, a text whose
  words joined by single spaces fit into \<open>wrap_width\<close> gives exactly that one line, and
  the packing is greedy: a line ends only where the next word would make it wider than
  \<open>wrap_width\<close>.
\<close>

theorem word_wrap_properties:
  assumes "only_space_ws text"
  shows "concat (map sp_words (wrap_lines gts (wrap_width x0 x1) text)) = sp_words text \<and>
         ws_words text = sp_words text \<and>
         wrap_width x0 x1 = max 300 (x1 - x0) \<and>
         (\<forall>l\<in>set (wrap_lines gts (wrap_width x0 x1) text).
            l \<noteq> [] \<and> (fst (gts l) \<le> wrap_width x0 x1 \<or> word_ok l)) \<and>
         (monotone_width gts \<longrightarrow>
            (\<forall>w\<in>set (sp_words text).
               fst (gts w) > wrap_width x0 x1 \<longrightarrow> w \<in> set (wrap_lines gts (wrap_width x0 x1) text))) \<and>
         (monotone_width gts \<and> sp_words text \<noteq> [] \<and>
          fst (gts (join_sp (sp_words text))) \<le> wrap_width x0 x1 \<longrightarrow>
            wrap_lines gts (wrap_width x0 x1) text = [join_sp (sp_words text)]) \<and>
         (monotone_width gts \<longrightarrow>
            greedy_breaks gts (wrap_width x0 x1) (wrap_lines gts (wrap_width x0 x1) text))"
proof -
  let ?ww = "wrap_width x0 x1"
  let ?ws = "split_on CHR '' '' text"
  have ws: "\<forall>w\<in>set ?ws. word_ok w" by (rule only_space_split_ok [OF assms])
  have p1: "concat (map sp_words (wrap_lines gts ?ww text)) = sp_words text"
    using wrap_loop_words [OF ws line_ok_Nil, of gts ?ww "[]"]
    by (simp add: wrap_lines_flush sp_words_Nil sp_words_def)
  have p2: "ws_words text = sp_words text" by (rule ws_words_sp_words [OF assms])
  have p3: "\<forall>l\<in>set (wrap_lines gts ?ww text). l \<noteq> [] \<and> (fst (gts l) \<le> ?ww \<or> word_ok l)"
    using wrap_loop_fits [OF ws line_ok_Nil, of "[]" gts ?ww]
    by (simp add: wrap_lines_flush line_fits_def)
  have p4: "w \<in> set (wrap_lines gts ?ww text)"
    if "monotone_width gts" "w \<in> set (sp_words text)" "fst (gts w) > ?ww" for w
  proof -
    from that(2) have "w \<in> set ?ws" "w \<noteq> []" by (simp_all add: sp_words_def)
    from overlong_word_kept [OF that(1) ws line_ok_Nil this that(3), of "[]"]
    show ?thesis by (simp add: wrap_lines_flush)
  qed
  have p5: "wrap_lines gts ?ww text = [join_sp (sp_words text)]"
    if "monotone_width gts" "sp_words text \<noteq> []" "fst (gts (join_sp (sp_words text))) \<le> ?ww"
  proof -
    from that(3) have "fst (gts (join_sp ((if ([]::string) = [] then [] else [[]])
                          @ filter (\<lambda>w. w \<noteq> []) ?ws))) \<le> ?ww"
      by (simp add: sp_words_def)
    from fits_one_line [OF that(1) ws line_ok_Nil this, of "[]"]
    have loop: "wrap_loop gts ?ww ?ws [] [] = ([], join_sp (sp_words text))"
      by (simp add: sp_words_def)
    have "join_sp (sp_words text) \<noteq> []"
    proof (cases "sp_words text")
      case Nil
      with that(2) show ?thesis by simp
    next
      case (Cons v vs)
      then have "v \<in> set (sp_words text)" by simp
      then have "v \<noteq> []" by (simp add: sp_words_def)
      with Cons show ?thesis by (cases vs) simp_all
    qed
    with loop show ?thesis by (simp add: wrap_lines_def)
  qed
  have p6: "greedy_breaks gts ?ww (wrap_lines gts ?ww text)" if "monotone_width gts"
    by (rule wrap_lines_greedy [OF that assms])
  from p1 p2 p3 p4 p5 p6 show ?thesis by (simp add: wrap_width_def)
qed

theorem word_wrap_properties_witness:
  "only_space_ws ''a supercalifragilisticexpialidocious  day'' \<and>
   only_space_ws ''a person'' \<and>
   monotone_width (fixed_pitch 10 20) \<and>
   sp_words ''a supercalifragilisticexpialidocious  day''
     = [''a'', ''supercalifragilisticexpialidocious'', ''day''] \<and>
   fst (fixed_pitch 10 20 ''supercalifragilisticexpialidocious'') > wrap_width 100 200 \<and>
   ''supercalifragilisticexpialidocious''
     \<in> set (wrap_lines (fixed_pitch 10 20) (wrap_width 100 200)
              ''a supercalifragilisticexpialidocious  day'') \<and>
   sp_words ''a person'' \<noteq> [] \<and>
   fst (fixed_pitch 10 20 (join_sp (sp_words ''a person''))) \<le> wrap_width 100 200 \<and>
   wrap_lines (fixed_pitch 10 20) (wrap_width 100 200) ''a person'' = [''a person'']"
proof -
  let ?t1 = "''a supercalifragilisticexpialidocious  day''"
  let ?t2 = "''a person''"
  have h1: "only_space_ws ?t1" and h2: "only_space_ws ?t2"
    by (simp_all add: only_space_ws_def py_isspace_def)
  have m: "monotone_width (fixed_pitch 10 20)" by (rule monotone_fixed_pitch) simp
  have w1: "sp_words ?t1 = [''a'', ''supercalifragilisticexpialidocious'', ''day'']"
    by (simp add: sp_words_def)
  have w2: "sp_words ?t2 = [''a'', ''person'']" by (simp add: sp_words_def)
  have long: "fst (fixed_pitch 10 20 ''supercalifragilisticexpialidocious'') > wrap_width 100 200"
    by (simp add: fixed_pitch_def wrap_width_def)
  have short: "fst (fixed_pitch 10 20 (join_sp (sp_words ?t2))) \<le> wrap_width 100 200"
    by (simp add: w2 fixed_pitch_def wrap_width_def)
  let ?g = "fixed_pitch 10 20"
  from word_wrap_properties [OF h1, of ?g 100 200] m
  have "\<forall>w\<in>set (sp_words ?t1).
          fst (?g w) > wrap_width 100 200 \<longrightarrow> w \<in> set (wrap_lines ?g (wrap_width 100 200) ?t1)"
    by blast
  moreover have "''supercalifragilisticexpialidocious'' \<in> set (sp_words ?t1)"
    by (simp add: w1)
  ultimately have a: "''supercalifragilisticexpialidocious''
             \<in> set (wrap_lines ?g (wrap_width 100 200) ?t1)"
    using long by blast
  have ne: "sp_words ?t2 \<noteq> []" by (simp add: w2)
  from word_wrap_properties [OF h2, of ?g 100 200] m ne short
  have "wrap_lines ?g (wrap_width 100 200) ?t2 = [join_sp (sp_words ?t2)]"
    by blast
  then have b: "wrap_lines ?g (wrap_width 100 200) ?t2 = [''a person'']"
    by (simp add: w2)
  from h1 h2 m w1 ne long short a b show ?thesis by blast
qed

text \<open>
  Claim C10 as stated fails: for the text \<open>a<LF>b<LF>\<close> (a caption with line breaks)
  wrapping gives the single line \<open>a<LF>b\<close>, which is neither the whitespace-normalised
  text \<open>a b\<close> nor the space-separated words of the text joined by single spaces.
\<close>

theorem wrap_join_not_normalized:
  "wrap_lines (fixed_pitch 10 20) 300 [CHR ''a'', CHR 0x0A, CHR ''b'', CHR 0x0A]
     = [[CHR ''a'', CHR 0x0A, CHR ''b'']] \<and>
   join_sp (ws_words [CHR ''a'', CHR 0x0A, CHR ''b'', CHR 0x0A]) = ''a b'' \<and>
   join_sp (sp_words [CHR ''a'', CHR 0x0A, CHR ''b'', CHR 0x0A])
     = [CHR ''a'', CHR 0x0A, CHR ''b'', CHR 0x0A] \<and>
   join_sp (wrap_lines (fixed_pitch 10 20) 300 [CHR ''a'', CHR 0x0A, CHR ''b'', CHR 0x0A])
     \<noteq> join_sp (ws_words [CHR ''a'', CHR 0x0A, CHR ''b'', CHR 0x0A]) \<and>
   join_sp (wrap_lines (fixed_pitch 10 20) 300 [CHR ''a'', CHR 0x0A, CHR ''b'', CHR 0x0A])
     \<noteq> join_sp (sp_words [CHR ''a'', CHR 0x0A, CHR ''b'', CHR 0x0A])"
  by (simp add: wrap_lines_def strip_def py_isspace_def fixed_pitch_def ws_words_def sp_words_def
                Let_def)

text \<open>
  Claim C10, amended. For every input text whose only whitespace characters are
  spaces, concatenating the wrapped lines in order with single spaces equals the
  whitespace-normalised input, that is the words of the text joined by single spaces.
\<close>

theorem wrap_join_normalized:
  assumes "only_space_ws text"
  shows "join_sp (wrap_lines gts ww text) = join_sp (ws_words text) \<and>
         ws_words text = sp_words text"
proof -
  have ws: "\<forall>w\<in>set (split_on CHR '' '' text). word_ok w"
    by (rule only_space_split_ok [OF assms])
  have "join_sp (wrap_lines gts ww text) = join_sp (sp_words text)"
    using wrap_loop_join [OF ws line_ok_Nil, of gts ww "[]"]
    by (simp add: wrap_lines_flush sp_words_def)
  with ws_words_sp_words [OF assms] show ?thesis by simp
qed

theorem wrap_join_normalized_witness:
  "only_space_ws ''a person  wearing a blue shirt'' \<and>
   wrap_lines (fixed_pitch 100 20) 300 ''a person  wearing a blue shirt''
     = [''a'', ''person'', ''wearing'', ''a'', ''blue'', ''shirt''] \<and>
   join_sp (wrap_lines (fixed_pitch 100 20) 300 ''a person  wearing a blue shirt'')
     = ''a person wearing a blue shirt'' \<and>
   join_sp (ws_words ''a person  wearing a blue shirt'') = ''a person wearing a blue shirt''"
proof -
  have h: "only_space_ws ''a person  wearing a blue shirt''"
    by (simp add: only_space_ws_def py_isspace_def)
  have l: "wrap_lines (fixed_pitch 100 20) 300 ''a person  wearing a blue shirt''
     = [''a'', ''person'', ''wearing'', ''a'', ''blue'', ''shirt'']"
    by (simp add: wrap_lines_def strip_def py_isspace_def fixed_pitch_def Let_def)
  have j: "join_sp [''a'', ''person'', ''wearing'', ''a'', ''blue'', ''shirt'']
             = ''a person wearing a blue shirt''"
    by simp
  from wrap_join_normalized [OF h, of "fixed_pitch 100 20" 300] h l j
  show ?thesis by simp
qed

section \<open>Properties of the detector wrapper and the frame pipeline\<close>

lemmas pipeline_eval =
  process_object_def pixel_box_def region_imaging_def canvas_def py_int_def exact_pixel_def
  fixed_model_def failing_model_def caption_failing_model_def caption_image_def detect_objects_def
  process_frame_def render_frame_def default_settings_def init_state_def calculate_fps_def Let_def

lemma process_object_caption:
  assumes "process_object io m ''caption'' frame current_prompt obj = Inr (obj', calls)"
    and "crop io frame (pixel_box io frame obj) = Inr cropped_image"
  shows "(fst (img_size io cropped_image) = 0 \<or> snd (img_size io cropped_image) = 0 \<longrightarrow>
            calls = [] \<and> obj' = obj\<lparr>label := Some current_prompt\<rparr>) \<and>
         (fst (img_size io cropped_image) > 0 \<and> snd (img_size io cropped_image) > 0 \<longrightarrow>
            calls = [cropped_image] \<and> obj' = obj\<lparr>label := Some (caption_image m cropped_image)\<rparr>)"
  using assms by (auto simp: process_object_def split: if_splits)

lemma process_objects_Cons_Inr:
  assumes "process_objects io m md frame p (obj # objs) = Inr (objs', calls)"
  shows "\<exists>obj' cs rest calls'.
           process_object io m md frame p obj = Inr (obj', cs) \<and>
           process_objects io m md frame p objs = Inr (rest, calls') \<and>
           objs' = obj' # rest \<and> calls = cs @ calls'"
  using assms by (auto split: sum.splits prod.splits)

lemma process_objects_Inr:
  assumes "process_objects io m md frame p objs = Inr (objs', calls)"
  shows "length objs' = length objs \<and>
         calls = concat (map (caption_calls_for io m md frame p) objs) \<and>
         (\<forall>i<length objs. process_object io m md frame p (objs ! i)
                             = Inr (objs' ! i, caption_calls_for io m md frame p (objs ! i)))"
  using assms
proof (induction objs arbitrary: objs' calls)
  case Nil
  then show ?case by simp
next
  case (Cons obj objs)
  from process_objects_Cons_Inr [OF Cons.prems]
  obtain obj' cs rest calls' where h:
    "process_object io m md frame p obj = Inr (obj', cs)"
    "process_objects io m md frame p objs = Inr (rest, calls')"
    "objs' = obj' # rest" "calls = cs @ calls'"
    by blast
  from Cons.IH [OF h(2)] have ih:
    "length rest = length objs"
    "calls' = concat (map (caption_calls_for io m md frame p) objs)"
    "\<forall>i<length objs. process_object io m md frame p (objs ! i)
                         = Inr (rest ! i, caption_calls_for io m md frame p (objs ! i))"
    by blast+
  have c: "caption_calls_for io m md frame p obj = cs"
    using h(1) by (simp add: caption_calls_for_def)
  have "process_object io m md frame p ((obj # objs) ! i)
          = Inr (objs' ! i, caption_calls_for io m md frame p ((obj # objs) ! i))"
    if "i < length (obj # objs)" for i
  proof (cases i)
    case 0
    with h(1,3) c show ?thesis by simp
  next
    case (Suc j)
    with that ih(3) h(3) show ?thesis by simp
  qed
  with ih(1,2) h(3,4) c show ?case by simp
qed

text \<open>
  Claim C2 as stated fails: in caption mode, on an inference frame of 1280 by 720
  pixels, a detection whose box is 0 pixels wide (\<open>x_min = x_max = 0.5\<close>) gets no
  caption call, but the label it is drawn with is the current prompt \<open>a person\<close>, not
  the empty string.
\<close>

theorem degenerate_crop_keeps_prompt:
  "map_sum id (\<lambda>r. (inference_ran r, drawn_objects r, caption_calls r))
     (process_frame default_settings region_imaging
        (fixed_model [\<lparr>x_min = 1/2, y_min = 1/4, x_max = 1/2, y_max = 3/4, label = None\<rparr>] ''a cat'')
        ''a person'' 1 (canvas 1280 720) (init_state ''caption'' 0))
     = Inr (True,
            [\<lparr>x_min = 1/2, y_min = 1/4, x_max = 1/2, y_max = 3/4, label = Some ''a person''\<rparr>],
            []) \<and>
   map_sum id (img_size region_imaging)
       (crop region_imaging (canvas 1280 720)
          (pixel_box region_imaging (canvas 1280 720)
             \<lparr>x_min = 1/2, y_min = 1/4, x_max = 1/2, y_max = 3/4, label = None\<rparr>)) = Inr (0, 360) \<and>
   map_sum id (\<lambda>r. label (fst r))
      (process_object region_imaging (fixed_model [] ''a cat'') ''caption''
                 (canvas 1280 720) ''a person''
                 \<lparr>x_min = 1/2, y_min = 1/4, x_max = 1/2, y_max = 3/4, label = None\<rparr>)
     = Inr (Some ''a person'') \<and>
   Some ''a person'' \<notin> {None, Some ''''}"
  by (simp add: pipeline_eval)

text \<open>
  Claim C2, amended. In caption mode, for every detection whose pixel crop has zero
  width or zero height, the caption capability is not invoked for that detection and
  its label is the current prompt; for every detection whose crop has positive width
  and height, caption is invoked exactly once, on the crop, and its return value is
  that detection's label. The caption calls of a frame are those of its detections, in
  order.
\<close>

theorem caption_mode_labelling:
  assumes "process_objects io m ''caption'' frame current_prompt objs = Inr (objs', calls)"
    and "i < length objs"
    and "crop io frame (pixel_box io frame (objs ! i)) = Inr cropped_image"
  shows "length objs' = length objs \<and>
         calls = concat (map (caption_calls_for io m ''caption'' frame current_prompt) objs) \<and>
         (fst (img_size io cropped_image) = 0 \<or> snd (img_size io cropped_image) = 0 \<longrightarrow>
            caption_calls_for io m ''caption'' frame current_prompt (objs ! i) = [] \<and>
            label (objs' ! i) = Some current_prompt) \<and>
         (fst (img_size io cropped_image) > 0 \<and> snd (img_size io cropped_image) > 0 \<longrightarrow>
            caption_calls_for io m ''caption'' frame current_prompt (objs ! i) = [cropped_image] \<and>
            label (objs' ! i) = Some (caption_image m cropped_image))"
proof -
  note all = process_objects_Inr [OF assms(1)]
  from all assms(2) have po:
    "process_object io m ''caption'' frame current_prompt (objs ! i)
       = Inr (objs' ! i, caption_calls_for io m ''caption'' frame current_prompt (objs ! i))"
    by blast
  from process_object_caption [OF po assms(3)] all show ?thesis by simp
qed

theorem caption_mode_labelling_witness:
  "process_objects region_imaging (fixed_model [] ''a cat'') ''caption'' (canvas 1280 720) ''a person''
       [\<lparr>x_min = 1/2, y_min = 1/4, x_max = 1/2, y_max = 3/4, label = None\<rparr>,
        \<lparr>x_min = 1/4, y_min = 1/4, x_max = 3/4, y_max = 3/4, label = None\<rparr>]
     = Inr ([\<lparr>x_min = 1/2, y_min = 1/4, x_max = 1/2, y_max = 3/4, label = Some ''a person''\<rparr>,
             \<lparr>x_min = 1/4, y_min = 1/4, x_max = 3/4, y_max = 3/4, label = Some ''a cat''\<rparr>],
            [\<lparr>x_min = 320, y_min = 180, x_max = 960, y_max = 540\<rparr>]) \<and>
   fst (img_size region_imaging \<lparr>x_min = 640, y_min = 180, x_max = 640, y_max = 540\<rparr>) = 0 \<and>
   caption_calls_for region_imaging (fixed_model [] ''a cat'') ''caption'' (canvas 1280 720) ''a person''
          \<lparr>x_min = 1/2, y_min = 1/4, x_max = 1/2, y_max = 3/4, label = None\<rparr> = [] \<and>
   fst (img_size region_imaging \<lparr>x_min = 320, y_min = 180, x_max = 960, y_max = 540\<rparr>) > 0 \<and>
   snd (img_size region_imaging \<lparr>x_min = 320, y_min = 180, x_max = 960, y_max = 540\<rparr>) > 0 \<and>
   caption_calls_for region_imaging (fixed_model [] ''a cat'') ''caption'' (canvas 1280 720) ''a person''
          \<lparr>x_min = 1/4, y_min = 1/4, x_max = 3/4, y_max = 3/4, label = None\<rparr>
     = [\<lparr>x_min = 320, y_min = 180, x_max = 960, y_max = 540\<rparr>]"
proof -
  let ?d = "\<lparr>x_min = 1/2, y_min = 1/4, x_max = 1/2, y_max = 3/4, label = None\<rparr> :: detection"
  let ?n = "\<lparr>x_min = 1/4, y_min = 1/4, x_max = 3/4, y_max = 3/4, label = None\<rparr> :: detection"
  let ?m = "fixed_model [] ''a cat'' :: rect model"
  let ?f = "canvas 1280 720"
  let ?cd = "\<lparr>x_min = 640, y_min = 180, x_max = 640, y_max = 540\<rparr> :: rect"
  let ?cn = "\<lparr>x_min = 320, y_min = 180, x_max = 960, y_max = 540\<rparr> :: rect"
  have all: "process_objects region_imaging ?m ''caption'' ?f ''a person'' [?d, ?n]
     = Inr ([?d\<lparr>label := Some ''a person''\<rparr>, ?n\<lparr>label := Some ''a cat''\<rparr>], [?cn])"
    by (simp add: pipeline_eval)
  have cd: "crop region_imaging ?f (pixel_box region_imaging ?f ([?d, ?n] ! 0)) = Inr ?cd"
    by (simp add: pipeline_eval)
  have cn: "crop region_imaging ?f (pixel_box region_imaging ?f ([?d, ?n] ! 1)) = Inr ?cn"
    by (simp add: pipeline_eval)
  have zd: "fst (img_size region_imaging ?cd) = 0" by (simp add: region_imaging_def)
  have pn: "fst (img_size region_imaging ?cn) > 0" "snd (img_size region_imaging ?cn) > 0"
    by (simp_all add: region_imaging_def)
  have i0: "0 < length [?d, ?n]" and i1: "1 < length [?d, ?n]" by simp_all
  have n0: "[?d, ?n] ! 0 = ?d" and n1: "[?d, ?n] ! 1 = ?n" by simp_all
  from caption_mode_labelling [OF all i0 cd] zd
  have "caption_calls_for region_imaging ?m ''caption'' ?f ''a person'' ([?d, ?n] ! 0) = []"
    by blast
  with n0 have a: "caption_calls_for region_imaging ?m ''caption'' ?f ''a person'' ?d = []"
    by (simp only:)
  from caption_mode_labelling [OF all i1 cn] pn
  have "caption_calls_for region_imaging ?m ''caption'' ?f ''a person'' ([?d, ?n] ! 1) = [?cn]"
    by blast
  with n1 have b: "caption_calls_for region_imaging ?m ''caption'' ?f ''a person'' ?n = [?cn]"
    by (simp only:)
  have all': "process_objects region_imaging ?m ''caption'' ?f ''a person'' [?d, ?n]
     = Inr ([\<lparr>x_min = 1/2, y_min = 1/4, x_max = 1/2, y_max = 3/4, label = Some ''a person''\<rparr>,
             \<lparr>x_min = 1/4, y_min = 1/4, x_max = 3/4, y_max = 3/4, label = Some ''a cat''\<rparr>],
            [?cn])"
    using all by simp
  from all' zd pn a b show ?thesis by blast
qed

lemma calculate_fps_below:
  "frame_count s + 1 < FPS_POLL_RATE cfg \<Longrightarrow>
   calculate_fps cfg now s = s\<lparr>frame_count := frame_count s + 1\<rparr>"
  by (simp add: calculate_fps_def Let_def)

lemma calculate_fps_reset:
  "frame_count s + 1 \<ge> FPS_POLL_RATE cfg \<Longrightarrow>
   calculate_fps cfg now s =
     s\<lparr>frame_count := 0, start_time := now,
       fps := (if now - start_time s > 0 then real_of_int (frame_count s + 1) / (now - start_time s)
               else fps s)\<rparr>"
  by (simp add: calculate_fps_def Let_def)




lemma latest_objects_calculate_fps [simp]:
  "latest_objects (calculate_fps cfg now s) = latest_objects s"
  by (simp add: calculate_fps_def Let_def)

lemma detect_objects_absorbed: "detect_objects (absorbed m) img prompt = detect_objects m img prompt"
  by (cases "model_detect m img prompt") (simp_all add: detect_objects_def absorbed_def)

lemma caption_image_absorbed: "caption_image (absorbed m) img = caption_image m img"
  by (cases "model_caption m img") (simp_all add: caption_image_def absorbed_def)

lemma process_object_absorbed:
  "process_object io (absorbed m) md frame p obj = process_object io m md frame p obj"
  by (simp add: process_object_def caption_image_absorbed split: sum.splits)

lemma process_objects_absorbed:
  "process_objects io (absorbed m) md frame p objs = process_objects io m md frame p objs"
  by (induction objs) (simp_all add: process_object_absorbed split: sum.splits prod.splits)

lemma process_frame_absorbed:
  "process_frame cfg io (absorbed m) prompt now frame s = process_frame cfg io m prompt now frame s"
  by (simp add: process_frame_def process_objects_absorbed detect_objects_absorbed)

lemma run_absorbed: "run cfg io (absorbed m) events s = run cfg io m events s"
proof (induction events arbitrary: s)
  case Nil
  show ?case by simp
next
  case (Cons ev events)
  obtain frame prompt now key_q where ev: "ev = (frame, prompt, now, key_q)"
    by (cases ev) auto
  show ?case
    unfolding ev by (simp add: process_frame_absorbed Cons.IH split: sum.splits)
qed

lemma process_frame_detect_fails:
  assumes "model_detect m frame prompt = Inl e" "FRAME_SKIP cfg \<noteq> 0"
  shows "process_frame cfg io m prompt now frame s =
           (if frame_count s mod FRAME_SKIP cfg = 0
            then Inr (render_frame cfg now prompt True [] (s\<lparr>latest_objects := []\<rparr>))
            else Inr (render_frame cfg now prompt False [] s))"
  using assms by (simp add: process_frame_def detect_objects_def)

lemma run_detect_fails:
  assumes "FRAME_SKIP cfg \<noteq> 0"
    and "\<forall>ev\<in>set events. \<exists>e. model_detect m (fst ev) (fst (snd ev)) = Inl e"
  shows "\<exists>rs. run cfg io m events s = Inr rs \<and> length rs = frames_until_quit events"
  using assms(2)
proof (induction events arbitrary: s)
  case Nil
  show ?case by (simp add: frames_until_quit_def)
next
  case (Cons ev events)
  obtain frame prompt now key_q where ev: "ev = (frame, prompt, now, key_q)"
    by (cases ev) auto
  from Cons.prems ev obtain e where e: "model_detect m frame prompt = Inl e" by auto
  from Cons.prems have rest: "\<forall>ev\<in>set events. \<exists>e. model_detect m (fst ev) (fst (snd ev)) = Inl e"
    by simp
  from process_frame_detect_fails [OF e assms(1), of io now s]
  obtain r where r: "process_frame cfg io m prompt now frame s = Inr r"
    by (cases "frame_count s mod FRAME_SKIP cfg = 0") simp_all
  from Cons.IH [OF rest, of "new_state r"]
  obtain rs where rs: "run cfg io m events (new_state r) = Inr rs"
    "length rs = frames_until_quit events"
    by blast
  show ?case using ev r rs by (cases key_q) (simp_all add: frames_until_quit_def)
qed

text \<open>
  Claim C9 as stated fails for captioning: on an inference frame in caption mode with
  one detection, the model raises during captioning, and the cycle does not degrade to
  zero detections: the detection is passed to the renderer, with the empty label.
\<close>

theorem caption_failure_keeps_detection:
  "map_sum id (\<lambda>r. (inference_ran r, drawn_objects r, caption_calls r))
     (process_frame default_settings region_imaging
        (caption_failing_model [\<lparr>x_min = 1/4, y_min = 1/4, x_max = 3/4, y_max = 3/4, label = None\<rparr>])
        ''a person'' 1 (canvas 1280 720) (init_state ''caption'' 0))
     = Inr (True,
            [\<lparr>x_min = 1/4, y_min = 1/4, x_max = 3/4, y_max = 3/4, label = Some ''''\<rparr>],
            [\<lparr>x_min = 320, y_min = 180, x_max = 960, y_max = 540\<rparr>]) \<and>
   model_caption
       (caption_failing_model [\<lparr>x_min = 1/4, y_min = 1/4, x_max = 3/4, y_max = 3/4, label = None\<rparr>])
       \<lparr>x_min = 320, y_min = 180, x_max = 960, y_max = 540\<rparr> = Inl (Exception ''model failure'') \<and>
   [\<lparr>x_min = 1/4, y_min = 1/4, x_max = 3/4, y_max = 3/4, label = Some ''''\<rparr>] \<noteq> []"
  by (simp add: pipeline_eval)

text \<open>
  Claim C9, amended. For every error raised by the model during detection or
  captioning, the wrapper catches it and returns the empty list (detection) or the
  empty string (captioning). A frame, and the whole loop, proceeds exactly as if the
  model had answered without objects or without caption instead of raising. A failed
  detection degrades the cycle to zero detections; a failed captioning keeps its
  detection, with the empty label. A loop in which every detection fails processes
  every frame up to the end of the stream or the first \<open>q\<close> key.
\<close>

theorem model_failure_handling:
  "(model_detect m img prompt = Inl e \<longrightarrow> detect_objects m img prompt = []) \<and>
   (model_caption m img = Inl e \<longrightarrow> caption_image m img = '''') \<and>
   process_frame cfg io m prompt now img s = process_frame cfg io (absorbed m) prompt now img s \<and>
   run cfg io m events s = run cfg io (absorbed m) events s \<and>
   (model_detect m img prompt = Inl e \<and> FRAME_SKIP cfg \<noteq> 0 \<and> frame_count s mod FRAME_SKIP cfg = 0 \<longrightarrow>
      (\<exists>r. process_frame cfg io m prompt now img s = Inr r \<and> inference_ran r \<and>
           caption_calls r = [] \<and> drawn_objects r = [] \<and> latest_objects (new_state r) = [])) \<and>
   (crop io img (pixel_box io img obj) = Inr c \<and> 0 < fst (img_size io c) \<and> 0 < snd (img_size io c) \<and>
    model_caption m c = Inl e \<longrightarrow>
      process_object io m ''caption'' img prompt obj = Inr (obj\<lparr>label := Some ''''\<rparr>, [c])) \<and>
   ((\<forall>ev\<in>set events. \<exists>e'. model_detect m (fst ev) (fst (snd ev)) = Inl e') \<and> FRAME_SKIP cfg \<noteq> 0 \<longrightarrow>
      (\<exists>rs. run cfg io m events s = Inr rs \<and> length rs = frames_until_quit events))"
proof (intro conjI impI)
  assume "model_detect m img prompt = Inl e"
  then show "detect_objects m img prompt = []" by (simp add: detect_objects_def)
next
  assume "model_caption m img = Inl e"
  then show "caption_image m img = ''''" by (simp add: caption_image_def)
next
  show "process_frame cfg io m prompt now img s = process_frame cfg io (absorbed m) prompt now img s"
    by (simp add: process_frame_absorbed)
next
  show "run cfg io m events s = run cfg io (absorbed m) events s"
    by (simp add: run_absorbed)
next
  assume a: "model_detect m img prompt = Inl e \<and> FRAME_SKIP cfg \<noteq> 0 \<and> frame_count s mod FRAME_SKIP cfg = 0"
  then have "process_frame cfg io m prompt now img s
        = Inr (render_frame cfg now prompt True [] (s\<lparr>latest_objects := []\<rparr>))"
    using process_frame_detect_fails [of m img prompt e cfg io now s] by simp
  then show "\<exists>r. process_frame cfg io m prompt now img s = Inr r \<and> inference_ran r \<and>
           caption_calls r = [] \<and> drawn_objects r = [] \<and> latest_objects (new_state r) = []"
    by (simp add: render_frame_def Let_def)
next
  assume "crop io img (pixel_box io img obj) = Inr c \<and> 0 < fst (img_size io c) \<and> 0 < snd (img_size io c) \<and>
    model_caption m c = Inl e"
  then show "process_object io m ''caption'' img prompt obj = Inr (obj\<lparr>label := Some ''''\<rparr>, [c])"
    by (simp add: process_object_def caption_image_def)
next
  assume "(\<forall>ev\<in>set events. \<exists>e'. model_detect m (fst ev) (fst (snd ev)) = Inl e') \<and> FRAME_SKIP cfg \<noteq> 0"
  then show "\<exists>rs. run cfg io m events s = Inr rs \<and> length rs = frames_until_quit events"
    using run_detect_fails [of cfg events m io s] by blast
qed

theorem model_failure_handling_witness:
  "model_detect failing_model (canvas 1280 720) ''a person'' = Inl (Exception ''model failure'') \<and>
   model_caption failing_model (canvas 1280 720) = Inl (Exception ''model failure'') \<and>
   FRAME_SKIP default_settings \<noteq> 0 \<and>
   frame_count (init_state ''caption'' 0) mod FRAME_SKIP default_settings = 0 \<and>
   detect_objects failing_model (canvas 1280 720) ''a person'' = [] \<and>
   caption_image failing_model (canvas 1280 720) = '''' \<and>
   (\<exists>r. process_frame default_settings region_imaging failing_model ''a person'' 1
           (canvas 1280 720) (init_state ''caption'' 0) = Inr r \<and>
        inference_ran r \<and> caption_calls r = [] \<and> drawn_objects r = [] \<and>
        latest_objects (new_state r) = []) \<and>
   (\<exists>rs. run default_settings region_imaging failing_model (plain_frames (canvas 1280 720) 3)
            (init_state ''caption'' 0) = Inr rs \<and> length rs = 3) \<and>
   process_object region_imaging
       (caption_failing_model [\<lparr>x_min = 1/4, y_min = 1/4, x_max = 3/4, y_max = 3/4, label = None\<rparr>])
       ''caption'' (canvas 1280 720) ''a person''
       \<lparr>x_min = 1/4, y_min = 1/4, x_max = 3/4, y_max = 3/4, label = None\<rparr>
     = Inr (\<lparr>x_min = 1/4, y_min = 1/4, x_max = 3/4, y_max = 3/4, label = Some ''''\<rparr>,
            [\<lparr>x_min = 320, y_min = 180, x_max = 960, y_max = 540\<rparr>])"
proof -
  let ?f = "canvas 1280 720"
  let ?s = "init_state ''caption'' 0"
  let ?e = "Exception ''model failure''"
  let ?n = "\<lparr>x_min = 1/4, y_min = 1/4, x_max = 3/4, y_max = 3/4, label = None\<rparr> :: detection"
  let ?cn = "\<lparr>x_min = 320, y_min = 180, x_max = 960, y_max = 540\<rparr> :: rect"
  let ?cm = "caption_failing_model [?n] :: rect model"
  let ?ev = "plain_frames ?f 3"
  have h1: "model_detect failing_model ?f ''a person'' = Inl ?e"
    and h2: "model_caption failing_model ?f = Inl ?e"
    by (simp_all add: failing_model_def)
  have h3: "FRAME_SKIP default_settings \<noteq> 0" by (simp add: default_settings_def)
  have h4: "frame_count ?s mod FRAME_SKIP default_settings = 0"
    by (simp add: init_state_def)
  have h5: "\<forall>ev\<in>set ?ev. \<exists>e'. model_detect (failing_model :: rect model) (fst ev) (fst (snd ev)) = Inl e'"
    by (simp add: failing_model_def)
  have len: "frames_until_quit ?ev = 3"
    by (simp add: frames_until_quit_def plain_frames_def upt_rec)
  have k1: "crop region_imaging ?f (pixel_box region_imaging ?f ?n) = Inr ?cn"
    by (simp add: pipeline_eval)
  have k2: "0 < fst (img_size region_imaging ?cn)" "0 < snd (img_size region_imaging ?cn)"
    by (simp_all add: region_imaging_def)
  have k3: "model_caption ?cm ?cn = Inl ?e" by (simp add: caption_failing_model_def)
  from model_failure_handling [where m = failing_model and img = ?f and prompt = "''a person''"
         and e = ?e and cfg = default_settings and io = region_imaging and now = 1 and s = ?s
         and events = ?ev and obj = ?n and c = ?cn] h1 h2 h3 h4 h5
  have a: "detect_objects failing_model ?f ''a person'' = []"
    and b: "caption_image failing_model ?f = ''''"
    and c: "\<exists>r. process_frame default_settings region_imaging failing_model ''a person'' 1 ?f ?s = Inr r \<and>
              inference_ran r \<and> caption_calls r = [] \<and> drawn_objects r = [] \<and>
              latest_objects (new_state r) = []"
    and d: "\<exists>rs. run default_settings region_imaging failing_model ?ev ?s = Inr rs \<and>
              length rs = frames_until_quit ?ev"
    by blast+
  from d len have d': "\<exists>rs. run default_settings region_imaging failing_model ?ev ?s = Inr rs \<and>
              length rs = 3"
    by (simp only:)
  from model_failure_handling [where m = ?cm and img = ?f and prompt = "''a person''"
         and e = ?e and cfg = default_settings and io = region_imaging and now = 1 and s = ?s
         and events = ?ev and obj = ?n and c = ?cn] k1 k2 k3
  have "process_object region_imaging ?cm ''caption'' ?f ''a person'' ?n
             = Inr (?n\<lparr>label := Some ''''\<rparr>, [?cn])"
    by blast
  then have f': "process_object region_imaging ?cm ''caption'' ?f ''a person'' ?n
     = Inr (\<lparr>x_min = 1/4, y_min = 1/4, x_max = 3/4, y_max = 3/4, label = Some ''''\<rparr>, [?cn])"
    by simp
  from h1 h2 h3 h4 a b c d' f' show ?thesis by blast
qed

lemma process_frame_cases:
  assumes "process_frame cfg io m prompt now frame s = Inr r"
  shows "FRAME_SKIP cfg \<noteq> 0 \<and>
         ((frame_count s mod FRAME_SKIP cfg = 0 \<and>
           (\<exists>objs calls. process_objects io m (mode s) frame prompt (detect_objects m frame prompt)
                            = Inr (objs, calls) \<and>
                          r = render_frame cfg now prompt True calls (s\<lparr>latest_objects := objs\<rparr>))) \<or>
          (frame_count s mod FRAME_SKIP cfg \<noteq> 0 \<and> r = render_frame cfg now prompt False [] s))"
proof (cases "FRAME_SKIP cfg = 0")
  case True
  with assms show ?thesis by (simp add: process_frame_def)
next
  case False
  show ?thesis
  proof (cases "frame_count s mod FRAME_SKIP cfg = 0")
    case gate: True
    show ?thesis
    proof (cases "process_objects io m (mode s) frame prompt (detect_objects m frame prompt)")
      case (Inl err)
      with assms False gate show ?thesis by (simp add: process_frame_def)
    next
      case (Inr res)
      obtain objs calls where res: "res = (objs, calls)" by (cases res)
      with Inr assms False gate show ?thesis by (simp add: process_frame_def)
    qed
  next
    case nogate: False
    with assms False show ?thesis by (simp add: process_frame_def)
  qed
qed

lemma process_frame_gate:
  assumes "process_frame cfg io m prompt now frame s = Inr r"
  shows "inference_ran r = (frame_count s mod FRAME_SKIP cfg = 0)"
  using process_frame_cases [OF assms] by (auto simp: render_frame_def Let_def)

lemma process_frame_skipped:
  assumes "process_frame cfg io m prompt now frame s = Inr r" "\<not> inference_ran r"
  shows "drawn_objects r = latest_objects s \<and> latest_objects (new_state r) = latest_objects s \<and>
         caption_calls r = []"
  using process_frame_cases [OF assms(1)] assms(2) by (auto simp: render_frame_def Let_def)

lemma frame_count_calculate_fps:
  assumes "0 < FPS_POLL_RATE cfg" "0 \<le> frame_count s" "frame_count s < FPS_POLL_RATE cfg"
  shows "frame_count (calculate_fps cfg now s) = (frame_count s + 1) mod FPS_POLL_RATE cfg"
proof (cases "frame_count s + 1 < FPS_POLL_RATE cfg")
  case True
  with assms(2) calculate_fps_below [OF True, of now] show ?thesis by simp
next
  case False
  with assms(3) have eq: "frame_count s + 1 = FPS_POLL_RATE cfg" by simp
  then have "frame_count s + 1 \<ge> FPS_POLL_RATE cfg" by simp
  from calculate_fps_reset [OF this, of now] eq show ?thesis by simp
qed

lemma process_frame_count:
  assumes "process_frame cfg io m prompt now frame s = Inr r"
    and "0 < FPS_POLL_RATE cfg" "0 \<le> frame_count s" "frame_count s < FPS_POLL_RATE cfg"
  shows "frame_count (new_state r) = (frame_count s + 1) mod FPS_POLL_RATE cfg"
proof -
  from process_frame_cases [OF assms(1)]
  obtain s1 where r: "new_state r = calculate_fps cfg now s1"
    and c: "frame_count s1 = frame_count s"
    by (auto simp: render_frame_def Let_def)
  from frame_count_calculate_fps [of cfg s1 now] assms(2,3,4) r c show ?thesis by simp
qed

lemma run_Cons_Inr:
  assumes "run cfg io m ((frame, prompt, now, False) # events) s = Inr rs"
  shows "\<exists>r rs'. process_frame cfg io m prompt now frame s = Inr r \<and>
                 run cfg io m events (new_state r) = Inr rs' \<and> rs = r # rs'"
proof (cases "process_frame cfg io m prompt now frame s")
  case (Inl err)
  with assms show ?thesis by simp
next
  case (Inr r)
  show ?thesis
  proof (cases "run cfg io m events (new_state r)")
    case (Inl err)
    with Inr assms show ?thesis by simp
  next
    case rest: (Inr rs')
    with Inr assms show ?thesis by simp
  qed
qed

lemma run_gate_pattern:
  assumes "0 < FPS_POLL_RATE cfg"
    and "0 \<le> frame_count s" "frame_count s < FPS_POLL_RATE cfg"
    and "\<forall>ev\<in>set events. \<not> snd (snd (snd ev))"
    and "run cfg io m events s = Inr rs"
  shows "length rs = length events \<and>
         (\<forall>i<length events.
            inference_ran (rs ! i) =
              ((frame_count s + int i) mod FPS_POLL_RATE cfg mod FRAME_SKIP cfg = 0))"
  using assms(2-)
proof (induction events arbitrary: s rs)
  case Nil
  then show ?case by simp
next
  case (Cons ev events)
  obtain frame prompt now key_q where ev: "ev = (frame, prompt, now, key_q)"
    by (cases ev) auto
  from Cons.prems(3) ev have nq: "\<not> key_q" and rest: "\<forall>ev\<in>set events. \<not> snd (snd (snd ev))"
    by simp_all
  from nq have kq: "key_q = False" by simp
  from Cons.prems(4)
  have "run cfg io m ((frame, prompt, now, False) # events) s = Inr rs"
    unfolding ev kq .
  from run_Cons_Inr [OF this]
  obtain r rs' where r: "process_frame cfg io m prompt now frame s = Inr r"
    and rs': "run cfg io m events (new_state r) = Inr rs'" and rs: "rs = r # rs'"
    by blast
  have fc: "frame_count (new_state r) = (frame_count s + 1) mod FPS_POLL_RATE cfg"
    by (rule process_frame_count [OF r assms(1) Cons.prems(1,2)])
  have b1: "0 \<le> frame_count (new_state r)" and b2: "frame_count (new_state r) < FPS_POLL_RATE cfg"
    using fc assms(1) by simp_all
  note ih = Cons.IH [OF b1 b2 rest rs']
  from ih have len: "length rs' = length events" by (rule conjunct1)
  from ih have pat: "\<forall>i<length events. inference_ran (rs' ! i) =
                ((frame_count (new_state r) + int i) mod FPS_POLL_RATE cfg mod FRAME_SKIP cfg = 0)"
    by (rule conjunct2)
  have "inference_ran ((r # rs') ! i) =
          ((frame_count s + int i) mod FPS_POLL_RATE cfg mod FRAME_SKIP cfg = 0)"
    if "i < length (ev # events)" for i
  proof (cases i)
    case 0
    with process_frame_gate [OF r] Cons.prems(1,2) show ?thesis by simp
  next
    case (Suc j)
    with that have j: "j < length events" by simp
    have "((frame_count s + 1) mod FPS_POLL_RATE cfg + int j) mod FPS_POLL_RATE cfg
            = ((frame_count s + 1) + int j) mod FPS_POLL_RATE cfg"
      by (rule mod_add_left_eq)
    moreover have "(frame_count s + 1) + int j = frame_count s + int (Suc j)" by simp
    ultimately have "(frame_count (new_state r) + int j) mod FPS_POLL_RATE cfg
            = (frame_count s + int (Suc j)) mod FPS_POLL_RATE cfg"
      unfolding fc by (simp only:)
    with pat j Suc show ?thesis by simp
  qed
  with rs len show ?case by simp
qed

lemma run_gate_divisible:
  assumes "0 < FPS_POLL_RATE cfg" "FRAME_SKIP cfg dvd FPS_POLL_RATE cfg"
    and "\<forall>ev\<in>set events. \<not> snd (snd (snd ev))"
    and "run cfg io m events (init_state md now0) = Inr rs"
  shows "length rs = length events \<and>
         (\<forall>i<length events. inference_ran (rs ! i) = (int i mod FRAME_SKIP cfg = 0))"
proof -
  have b: "0 \<le> frame_count (init_state md now0)"
    "frame_count (init_state md now0) < FPS_POLL_RATE cfg"
    using assms(1) by (simp_all add: init_state_def)
  have z: "frame_count (init_state md now0) = 0" by (simp add: init_state_def)
  have c: "(0 + int i) mod FPS_POLL_RATE cfg mod FRAME_SKIP cfg = int i mod FRAME_SKIP cfg" for i
    using mod_mod_cancel [OF assms(2), of "int i"] by simp
  note pattern = run_gate_pattern [OF assms(1) b assms(3,4)]
  from pattern have len: "length rs = length events" by (rule conjunct1)
  from pattern have pat: "\<forall>i<length events. inference_ran (rs ! i) =
                ((frame_count (init_state md now0) + int i) mod FPS_POLL_RATE cfg
                   mod FRAME_SKIP cfg = 0)"
    by (rule conjunct2)
  from pat have "\<forall>i<length events. inference_ran (rs ! i) = (int i mod FRAME_SKIP cfg = 0)"
    unfolding z c .
  with len show ?thesis by blast
qed

text \<open>
  Claim C4, evaluated on the code. The inference gate tests \<^verbatim>\<open>self.frame_count\<close>, the
  counter that \<^verbatim>\<open>_calculate_fps\<close> resets every \<^verbatim>\<open>FPS_POLL_RATE\<close> frames, not the index of
  the frame. With \<^verbatim>\<open>FRAME_SKIP = 3\<close> and \<^verbatim>\<open>FPS_POLL_RATE = 10\<close> inference runs on the frames
  0, 3, 6, 9, 10: on frame 10, which is not a multiple of 3 and follows frame 9
  directly, and not on frame 12, which is one. (With the shipped values 5 and 10, and
  whenever the interval divides the poll rate, the gate does open exactly on the
  multiples of the interval: \<open>run_gate_divisible\<close>.)
\<close>

theorem inference_gate_follows_fps_counter:
  "map_sum id (map inference_ran)
     (run \<lparr>FRAME_SKIP = 3, FPS_POLL_RATE = 10\<rparr> region_imaging (fixed_model [] ''a cat'')
        (plain_frames (canvas 1280 720) 13) (init_state ''detect'' 0))
   = Inr [True, False, False, True, False, False, True, False, False, True, True, False, False]"
proof -
  have u: "[0..<13] = [0, 1, 2, 3, 4, 5, 6, 7, 8, 9, 10, 11, 12::nat]"
    by (simp add: upt_rec)
  show ?thesis
    by (simp add: plain_frames_def u process_frame_def calculate_fps_def init_state_def
          Let_def pipeline_eval)
qed

end
